theory Spec2Isabelle
  imports Main
begin

section \<open>Python dictionaries\<close>

text \<open>
  A Python \<^verbatim>\<open>dict\<close> keeps its entries in insertion order and holds every key once.
  It is modelled as an association list; the keys of a dictionary are pairwise different,
  which is the hypothesis \<open>distinct (map fst d)\<close> wherever a theorem takes a dictionary
  as its input.

  \<open>dict_setitem eq d k v\<close> is the assignment \<^verbatim>\<open>d[k] = v\<close>. The dictionary compares keys
  with \<^verbatim>\<open>==\<close>, here the parameter \<open>eq\<close>. When an equal key is present its value is
  replaced, the entry keeps its place and the key object already stored stays; otherwise
  the entry is added at the end.
\<close>

fun dict_setitem :: "('k \<Rightarrow> 'k \<Rightarrow> bool) \<Rightarrow> ('k \<times> 'v) list \<Rightarrow> 'k \<Rightarrow> 'v \<Rightarrow> ('k \<times> 'v) list" where
  "dict_setitem eq [] k v = [(k, v)]"
| "dict_setitem eq ((k', v') # d) k v =
     (if eq k' k then (k', v) # d else (k', v') # dict_setitem eq d k v)"

text \<open>\<^verbatim>\<open>d[k]\<close>, with \<open>None\<close> where Python raises \<^verbatim>\<open>KeyError\<close>.\<close>

definition dict_getitem :: "('k \<Rightarrow> 'k \<Rightarrow> bool) \<Rightarrow> ('k \<times> 'v) list \<Rightarrow> 'k \<Rightarrow> 'v option" where
  "dict_getitem eq d k = map_option snd (find (\<lambda>e. eq (fst e) k) d)"

text \<open>\<^verbatim>\<open>d.update(e)\<close>, and \<^verbatim>\<open>dict(pairs)\<close>: the entries are assigned one after the other.\<close>

definition dict_update :: "('k \<Rightarrow> 'k \<Rightarrow> bool) \<Rightarrow> ('k \<times> 'v) list \<Rightarrow> ('k \<times> 'v) list \<Rightarrow> ('k \<times> 'v) list" where
  "dict_update eq d e = fold (\<lambda>(k, v) acc. dict_setitem eq acc k v) e d"

definition dict_of_pairs :: "('k \<times> 'v) list \<Rightarrow> ('k \<times> 'v) list" where
  "dict_of_pairs ps = dict_update (=) [] ps"

section \<open>The parameter-combination generator\<close>

text \<open>
  \<^verbatim>\<open>itertools.product(*pools)\<close>, as the Python library documents it:
  \<^verbatim>\<open>
  result = [[]]
  for pool in pools:
      result = [x+[y] for x in result for y in pool]
  \<close>
  The tuples come out in this order.
\<close>

definition itertools_product :: "'a list list \<Rightarrow> 'a list list" where
  "itertools_product pools =
     foldl (\<lambda>result pool. concat (map (\<lambda>x. map (\<lambda>y. x @ [y]) pool) result)) [[]] pools"

text \<open>
  \<^verbatim>\<open>
  def dict_product(d):
      keys = list(d.keys())
      for pms in product(*d.values()):
          yield dict(zip(keys, pms))
  \<close>
  The generator is modelled by the list of the mappings it yields, in the order it yields
  them.
\<close>

definition dict_product :: "('k \<times> 'v list) list \<Rightarrow> ('k \<times> 'v) list list" where
  "dict_product d =
     (let keys = map fst d
      in map (\<lambda>pms. dict_of_pairs (zip keys pms)) (itertools_product (map snd d)))"

section \<open>Python values\<close>

text \<open>
  The values a configuration or a grid holds: \<^verbatim>\<open>None\<close>, booleans, integers, strings and
  \<^verbatim>\<open>pathlib\<close> paths. A path is kept in its parsed form, as \<^verbatim>\<open>PurePosixPath\<close> keeps it: the
  anchor (\<^verbatim>\<open>''\<close>, \<^verbatim>\<open>'/'\<close> or \<^verbatim>\<open>'//'\<close>) and the names after it. Floating-point values are not
  part of the model.
\<close>

datatype pyval = PNone | PBool bool | PInt int | PStr string | PPath string "string list"

text \<open>
  The errors raised: \<^verbatim>\<open>AttributeError\<close> with the name of the attribute that is missing, and
  whatever makes \<^verbatim>\<open>pd.read_csv\<close> fail.
\<close>

datatype error = AttributeError string | LoadError

text \<open>The decimal digits of a natural number, and \<^verbatim>\<open>str\<close> of an \<^verbatim>\<open>int\<close>.\<close>

fun str_nat :: "nat \<Rightarrow> string" where
  "str_nat n =
     (if n < 10 then [''0123456789'' ! n]
      else str_nat (n div 10) @ [''0123456789'' ! (n mod 10)])"

definition str_int :: "int \<Rightarrow> string" where
  "str_int i = (if i < 0 then CHR ''-'' # str_nat (nat (- i)) else str_nat (nat i))"

text \<open>\<^verbatim>\<open>'/'.join(names)\<close>\<close>

fun join_slash :: "string list \<Rightarrow> string" where
  "join_slash [] = []"
| "join_slash [n] = n"
| "join_slash (n # ns) = n @ CHR ''/'' # join_slash ns"

text \<open>\<^verbatim>\<open>str(path)\<close>: the anchor followed by the names, and \<^verbatim>\<open>'.'\<close> for the empty path.\<close>

definition path_str :: "string \<Rightarrow> string list \<Rightarrow> string" where
  "path_str anchor names =
     (if anchor = [] \<and> names = [] then ''.'' else anchor @ join_slash names)"

text \<open>\<^verbatim>\<open>str(value)\<close>\<close>

fun py_str :: "pyval \<Rightarrow> string" where
  "py_str PNone = ''None''"
| "py_str (PBool b) = (if b then ''True'' else ''False'')"
| "py_str (PInt i) = str_int i"
| "py_str (PStr s) = s"
| "py_str (PPath anchor names) = path_str anchor names"

text \<open>\<^verbatim>\<open>name.rfind(c)\<close>: the index of the last \<open>c\<close>; \<open>None\<close> stands for Python's \<open>-1\<close>.\<close>

fun rfind :: "char \<Rightarrow> string \<Rightarrow> nat option" where
  "rfind c [] = None"
| "rfind c (x # xs) =
     (case rfind c xs of
        Some i \<Rightarrow> Some (Suc i)
      | None \<Rightarrow> if x = c then Some 0 else None)"

text \<open>
  \<^verbatim>\<open>path.name\<close> is the last name (empty when the path has none), and \<^verbatim>\<open>path.stem\<close> is
  \<^verbatim>\<open>
  name = self.name
  i = name.rfind('.')
  if 0 < i < len(name) - 1:
      return name[:i]
  else:
      return name
  \<close>
\<close>

definition path_name :: "string list \<Rightarrow> string" where
  "path_name names = (if names = [] then [] else last names)"

definition path_stem :: "string list \<Rightarrow> string" where
  "path_stem names =
     (let name = path_name names
      in case rfind CHR ''.'' name of
           None \<Rightarrow> name
         | Some i \<Rightarrow> if 0 < i \<and> Suc i < length name then take i name else name)"

text \<open>
  \<^verbatim>\<open>value.stem\<close>: only a path has the attribute; on every other value the attribute
  lookup raises \<^verbatim>\<open>AttributeError\<close>.
\<close>

fun stem_attr :: "pyval \<Rightarrow> error + string" where
  "stem_attr (PPath anchor names) = Inr (path_stem names)"
| "stem_attr PNone = Inl (AttributeError ''stem'')"
| "stem_attr (PBool b) = Inl (AttributeError ''stem'')"
| "stem_attr (PInt i) = Inl (AttributeError ''stem'')"
| "stem_attr (PStr s) = Inl (AttributeError ''stem'')"

text \<open>
  \<^verbatim>\<open>x == y\<close> on values, which is how a dictionary compares keys: \<^verbatim>\<open>bool\<close> is a subclass of
  \<^verbatim>\<open>int\<close>, so \<^verbatim>\<open>True == 1\<close> and \<^verbatim>\<open>False == 0\<close> (with equal hashes); a path equals no string.
  Tuples are equal when they have the same length and equal components.
\<close>

fun py_eq :: "pyval \<Rightarrow> pyval \<Rightarrow> bool" where
  "py_eq (PBool b) (PInt i) = (i = (if b then 1 else 0))"
| "py_eq (PInt i) (PBool b) = (i = (if b then 1 else 0))"
| "py_eq x y = (x = y)"

definition tuple_eq :: "pyval list \<Rightarrow> pyval list \<Rightarrow> bool" where
  "tuple_eq xs ys = list_all2 py_eq xs ys"

section \<open>The single-run driver\<close>

type_synonym config = "(string \<times> pyval) list"

text \<open>
  An instance of \<^verbatim>\<open>PyRatGame\<close> is its \<^verbatim>\<open>__dict__\<close>, which gives for each instance field the
  address of the object the field refers to, and the store holding the dictionary at
  each address. The class itself defines no attribute named \<^verbatim>\<open>kwargs\<close>.
\<close>

record driver =
  inst_dict :: "(string \<times> nat) list"
  store :: "nat \<Rightarrow> config"

text \<open>
  \<^verbatim>\<open>
  def __init__(self, **kwargs):
      default_kwargs = {"synchronous": True, "nodrawing": True}
      super().__setattr__("kwargs", {**default_kwargs, **kwargs})
  \<close>
  \<open>init_kwargs\<close> is the dictionary \<^verbatim>\<open>{**default_kwargs, **kwargs}\<close>; \<^verbatim>\<open>object.__setattr__\<close>
  writes the instance field. The new dictionary is allocated at address \<open>0\<close>.
\<close>

definition default_kwargs :: config where
  "default_kwargs = [(''synchronous'', PBool True), (''nodrawing'', PBool True)]"

definition init_kwargs :: "config \<Rightarrow> config" where
  "init_kwargs kwargs = dict_update (=) (dict_update (=) [] default_kwargs) kwargs"

definition object_setattr :: "driver \<Rightarrow> string \<Rightarrow> nat \<Rightarrow> driver" where
  "object_setattr self name addr = self\<lparr>inst_dict := dict_setitem (=) (inst_dict self) name addr\<rparr>"

definition PyRatGame_init :: "config \<Rightarrow> driver" where
  "PyRatGame_init kwargs =
     object_setattr \<lparr>inst_dict = [], store = (\<lambda>a. [])(0 := init_kwargs kwargs)\<rparr>
       ''kwargs'' 0"

text \<open>\<^verbatim>\<open>self.kwargs\<close>: the instance field, \<^verbatim>\<open>AttributeError\<close> when there is none.\<close>

definition getattr_kwargs :: "driver \<Rightarrow> error + nat" where
  "getattr_kwargs self =
     (case map_of (inst_dict self) ''kwargs'' of
        None \<Rightarrow> Inl (AttributeError ''kwargs'')
      | Some addr \<Rightarrow> Inr addr)"

text \<open>
  \<^verbatim>\<open>
  def __setattr__(self, name, value):
      self.kwargs.update({name: value})
  \<close>
  The dictionary the field refers to is changed in place.
\<close>

definition PyRatGame_setattr :: "driver \<Rightarrow> string \<Rightarrow> pyval \<Rightarrow> error + driver" where
  "PyRatGame_setattr self name value =
     (case getattr_kwargs self of
        Inl e \<Rightarrow> Inl e
      | Inr addr \<Rightarrow>
          Inr (self\<lparr>store :=
                 (store self)(addr := dict_update (=) (store self addr) [(name, value)])\<rparr>))"

text \<open>
  \<^verbatim>\<open>
  args = ["python", "pyrat.py"]
  for name, value in self.kwargs.items():
      if isinstance(value, bool) and value is True:
          args.append("--" + name)
      else:
          args.append("--" + name)
          args.append(str(value))
  return args
  \<close>
\<close>

fun isinstance_bool :: "pyval \<Rightarrow> bool" where
  "isinstance_bool (PBool b) = True"
| "isinstance_bool v = False"

definition cmd_line_args :: "config \<Rightarrow> string list" where
  "cmd_line_args kwargs =
     fold (\<lambda>(name, value) args.
             if isinstance_bool value \<and> value = PBool True
             then args @ [''--'' @ name]
             else (args @ [''--'' @ name]) @ [py_str value])
       kwargs [''python'', ''pyrat.py'']"

subsection \<open>The pattern search\<close>

text \<open>
  \<^verbatim>\<open>
  csv_path_pattern = re.compile(
      r"^Stats can be found at: (?P<csv_path>.*?\.csv)$",
      flags=re.MULTILINE,
  )
  \<close>
  With \<^verbatim>\<open>re.MULTILINE\<close>, \<^verbatim>\<open>^\<close> matches at the start of the text and after every newline,
  and \<^verbatim>\<open>$\<close> matches at the end of the text and before every newline; \<^verbatim>\<open>.\<close> matches every
  character but the newline.
\<close>

definition newline :: char where
  "newline = CHR 0x0A"

definition stats_prefix :: string where
  "stats_prefix = ''Stats can be found at: ''"

definition at_eol :: "string \<Rightarrow> bool" where
  "at_eol s = (case s of [] \<Rightarrow> True | c # cs \<Rightarrow> c = newline)"

text \<open>
  \<open>match_csv_path s\<close> matches \<^verbatim>\<open>(?P<csv_path>.*?\.csv)$\<close> at the start of \<open>s\<close> and gives the group.
  The quantifier is lazy: the matcher first tries \<^verbatim>\<open>\.csv$\<close> right here, and only when
  that fails lets \<^verbatim>\<open>.\<close> take one more character, which must not be a newline.
\<close>

fun match_csv_path :: "string \<Rightarrow> string option" where
  "match_csv_path s =
     (if take 4 s = ''.csv'' \<and> at_eol (drop 4 s) then Some ''.csv''
      else (case s of
              [] \<Rightarrow> None
            | c # cs \<Rightarrow>
                if c = newline then None else map_option (Cons c) (match_csv_path cs)))"

text \<open>
  \<open>pattern_search bol s\<close> is \<^verbatim>\<open>csv_path_pattern.search\<close> on the rest \<open>s\<close> of the text, \<open>bol\<close>
  telling whether \<^verbatim>\<open>^\<close> matches at this position. The start positions are tried from left
  to right, and the first match is the result.
\<close>

fun pattern_search :: "bool \<Rightarrow> string \<Rightarrow> string option" where
  "pattern_search bol s =
     (case (if bol \<and> take (length stats_prefix) s = stats_prefix
            then match_csv_path (drop (length stats_prefix) s) else None) of
        Some path \<Rightarrow> Some path
      | None \<Rightarrow>
          (case s of
             [] \<Rightarrow> None
           | c # cs \<Rightarrow> pattern_search (c = newline) cs))"

text \<open>
  \<^verbatim>\<open>
  def _extract_csv_path(cls, stdout):
      return cls.csv_path_pattern.search(stdout).groupdict()["csv_path"]
  \<close>
  When nothing matches, \<^verbatim>\<open>search\<close> returns \<^verbatim>\<open>None\<close>, and \<^verbatim>\<open>None.groupdict\<close> raises
  \<^verbatim>\<open>AttributeError\<close>.
\<close>

definition extract_csv_path :: "string \<Rightarrow> error + string" where
  "extract_csv_path stdout =
     (case pattern_search True stdout of
        None \<Rightarrow> Inl (AttributeError ''groupdict'')
      | Some csv_path \<Rightarrow> Inr csv_path)"

text \<open>
  The lines of a text (\<^verbatim>\<open>text.split('\n')\<close>), and the lines the specification speaks of:
  \<^verbatim>\<open>Stats can be found at: <path>\<close> with a path that ends in \<^verbatim>\<open>.csv\<close>.
\<close>

fun lines_of :: "string \<Rightarrow> string list" where
  "lines_of [] = [[]]"
| "lines_of (c # cs) =
     (if c = newline then [] # lines_of cs
      else (case lines_of cs of [] \<Rightarrow> [[c]] | l # ls \<Rightarrow> (c # l) # ls))"

definition ends_with_csv :: "string \<Rightarrow> bool" where
  "ends_with_csv p = (4 \<le> length p \<and> drop (length p - 4) p = ''.csv'')"

definition stats_line :: "string \<Rightarrow> bool" where
  "stats_line l =
     (take (length stats_prefix) l = stats_prefix \<and> ends_with_csv (drop (length stats_prefix) l))"

subsection \<open>Running the game\<close>

text \<open>
  What lies outside the program: the standard output of the game started with a given
  command line, what \<^verbatim>\<open>pd.read_csv(path, skiprows=2)\<close> loads or that it fails, and the
  column-wise \<^verbatim>\<open>mean\<close> of a loaded dataset. The game is not deterministic, so the first two
  also depend on how many runs were made before.
\<close>

record ('ds, 'row) world =
  subprocess_stdout :: "nat \<Rightarrow> string list \<Rightarrow> string"
  read_csv :: "nat \<Rightarrow> string \<Rightarrow> error + 'ds"
  mean :: "'ds \<Rightarrow> 'row"

text \<open>
  \<^verbatim>\<open>
  def run(self):
      completed = subprocess.run(self.cmd_line_args, capture_output=True)
      csv_path = self._extract_csv_path(completed.stdout.decode())
      return csv_path, self.load_stats(csv_path)
  \<close>
\<close>

definition run :: "('ds, 'row) world \<Rightarrow> nat \<Rightarrow> config \<Rightarrow> error + (string \<times> 'ds)" where
  "run w t kwargs =
     (let completed = subprocess_stdout w t (cmd_line_args kwargs)
      in case extract_csv_path completed of
           Inl e \<Rightarrow> Inl e
         | Inr csv_path \<Rightarrow>
             (case read_csv w t csv_path of
                Inl e \<Rightarrow> Inl e
              | Inr stats \<Rightarrow> Inr (csv_path, stats)))"

text \<open>The reduced statistics \<^verbatim>\<open>stats.mean()\<close> of a run, when the run succeeds.\<close>

definition run_row :: "('ds, 'row) world \<Rightarrow> nat \<Rightarrow> config \<Rightarrow> 'row option" where
  "run_row w t kwargs =
     (case run w t kwargs of
        Inl e \<Rightarrow> None
      | Inr (csv_path, stats) \<Rightarrow> Some (mean w stats))"

section \<open>The sweep\<close>

text \<open>
  \<^verbatim>\<open>
  for pname, pvalue in params.items():
      pyrat.kwargs[pname] = pvalue
      if link_height_width:
          if pname == "height":
              pyrat.kwargs["width"] = pvalue
          if pname == "width":
              pyrat.kwargs["height"] = pvalue
  \<close>
\<close>

definition set_param :: "bool \<Rightarrow> config \<Rightarrow> string \<times> pyval \<Rightarrow> config" where
  "set_param link_height_width kwargs p =
     (case p of (pname, pvalue) \<Rightarrow>
        (let kw1 = dict_setitem (=) kwargs pname pvalue
         in if link_height_width
            then (let kw2 = (if pname = ''height'' then dict_setitem (=) kw1 ''width'' pvalue else kw1)
                  in if pname = ''width'' then dict_setitem (=) kw2 ''height'' pvalue else kw2)
            else kw1))"

definition overlay :: "bool \<Rightarrow> config \<Rightarrow> config \<Rightarrow> config" where
  "overlay link_height_width kwargs params = foldl (set_param link_height_width) kwargs params"

text \<open>
  \<^verbatim>\<open>
  pvalues = tuple(
      pvalue if pname not in {"rat", "python"} else str(pvalue.stem)
      for pname, pvalue in params.items()
  )
  \<close>
\<close>

definition render_pvalue :: "string \<times> pyval \<Rightarrow> error + pyval" where
  "render_pvalue p =
     (case p of (pname, pvalue) \<Rightarrow>
        if pname \<notin> {''rat'', ''python''} then Inr pvalue
        else (case stem_attr pvalue of Inl e \<Rightarrow> Inl e | Inr s \<Rightarrow> Inr (PStr s)))"

fun render_pvalues :: "config \<Rightarrow> error + pyval list" where
  "render_pvalues [] = Inr []"
| "render_pvalues (p # params) =
     (case render_pvalue p of
        Inl e \<Rightarrow> Inl e
      | Inr x \<Rightarrow> (case render_pvalues params of Inl e \<Rightarrow> Inl e | Inr xs \<Rightarrow> Inr (x # xs)))"

text \<open>
  A combination whose values under \<^verbatim>\<open>rat\<close> and \<^verbatim>\<open>python\<close> are all path objects, which have the
  attribute \<^verbatim>\<open>stem\<close>.
\<close>

fun has_stem :: "pyval \<Rightarrow> bool" where
  "has_stem (PPath anchor names) = True"
| "has_stem v = False"

definition stems_ok :: "config \<Rightarrow> bool" where
  "stems_ok params =
     list_all (\<lambda>p. fst p \<in> {''rat'', ''python''} \<longrightarrow> has_stem (snd p)) params"

text \<open>Two combinations whose rendered tuples are equal, and so are the same key of \<^verbatim>\<open>results\<close>.\<close>

definition same_label :: "config \<Rightarrow> config \<Rightarrow> bool" where
  "same_label c c' =
     (case (render_pvalues c, render_pvalues c') of
        (Inr x, Inr y) \<Rightarrow> tuple_eq x y
      | _ \<Rightarrow> False)"

text \<open>
  What the specification says of the labels: the value of a parameter named \<^verbatim>\<open>rat\<close> or
  \<^verbatim>\<open>python\<close> is a path and is replaced by its stem, every other value is kept.
\<close>

definition label_entry :: "string \<times> pyval \<Rightarrow> pyval \<Rightarrow> bool" where
  "label_entry p x =
     (case p of (pname, pvalue) \<Rightarrow>
        if pname \<in> {''rat'', ''python''}
        then (case pvalue of PPath anchor names \<Rightarrow> x = PStr (path_stem names) | _ \<Rightarrow> False)
        else x = pvalue)"

text \<open>
  The loop of \<^verbatim>\<open>pyrat_multiruns\<close> over the combinations. Its state is the configuration of
  the one driver, the \<^verbatim>\<open>results\<close> dictionary, and the configurations the game was run with
  so far. The loop ends with the results or with the error raised, and in both cases with
  the runs made.
  \<^verbatim>\<open>
  for params in dict_product(grid_params):
      ...
      csv_path, stats = pyrat.run()
      stats = stats.mean()
      pvalues = tuple(...)
      results[pvalues] = stats
  \<close>
\<close>

fun sweep_loop ::
  "('ds, 'row) world \<Rightarrow> bool \<Rightarrow> config list \<Rightarrow> config \<Rightarrow> (pyval list \<times> 'row) list \<Rightarrow> config list
     \<Rightarrow> (error + (pyval list \<times> 'row) list) \<times> config list" where
  "sweep_loop w link [] kwargs results runs = (Inr results, runs)"
| "sweep_loop w link (params # rest) kwargs results runs =
     (let kwargs' = overlay link kwargs params;
          runs' = runs @ [kwargs']
      in case run w (length runs) kwargs' of
           Inl e \<Rightarrow> (Inl e, runs')
         | Inr (csv_path, stats) \<Rightarrow>
             (let stats' = mean w stats
              in case render_pvalues params of
                   Inl e \<Rightarrow> (Inl e, runs')
                 | Inr pvalues \<Rightarrow>
                     sweep_loop w link rest kwargs'
                       (dict_setitem tuple_eq results pvalues stats') runs'))"

text \<open>
  The configurations the one driver goes through when every combination is reached: each
  combination is laid over the configuration the run before left.
\<close>

fun configs :: "bool \<Rightarrow> config \<Rightarrow> config list \<Rightarrow> config list" where
  "configs link kwargs [] = []"
| "configs link kwargs (params # rest) =
     overlay link kwargs params # configs link (overlay link kwargs params) rest"

text \<open>
  The table \<^verbatim>\<open>pd.DataFrame(results).T\<close> with \<^verbatim>\<open>df.index.names = params_keys\<close>: one row for each
  entry of \<^verbatim>\<open>results\<close>, in the order of the dictionary, labelled by the entry's key.
  \<^verbatim>\<open>
  params_keys = tuple(grid_params.keys())
  pyrat = PyRatGame(**fixed_params)
  results = {}
  for params in dict_product(grid_params): ...
  df = pd.DataFrame(results).T
  df.index.names = params_keys
  return df
  \<close>
\<close>

record 'row table =
  index_names :: "string list"
  rows :: "(pyval list \<times> 'row) list"

definition pyrat_multiruns ::
  "('ds, 'row) world \<Rightarrow> config \<Rightarrow> (string \<times> pyval list) list \<Rightarrow> bool
     \<Rightarrow> (error + 'row table) \<times> config list" where
  "pyrat_multiruns w fixed_params grid_params link_height_width =
     (let params_keys = map fst grid_params
      in case sweep_loop w link_height_width (dict_product grid_params)
                (init_kwargs fixed_params) [] [] of
           (Inl e, runs) \<Rightarrow> (Inl e, runs)
         | (Inr results, runs) \<Rightarrow>
             (Inr \<lparr>index_names = params_keys, rows = results\<rparr>, runs))"

text \<open>
  A world for the examples: every run of the game prints the line that announces its
  statistics file, and the statistics of a run are stood for by the number of the run.
\<close>

definition example_world :: "(nat, nat) world" where
  "example_world =
     \<lparr>subprocess_stdout = (\<lambda>t args. ''Stats can be found at: out.csv''),
      read_csv = (\<lambda>t path. Inr t),
      mean = (\<lambda>stats. stats)\<rparr>"

section \<open>Facts about dictionaries\<close>

lemma dict_setitem_fresh:
  "\<forall>k' \<in> fst ` set d. \<not> eq k' k \<Longrightarrow> dict_setitem eq d k v = d @ [(k, v)]"
  by (induction d) auto

lemma fold_setitem_distinct:
  "distinct (map fst (acc @ ps)) \<Longrightarrow>
     fold (\<lambda>(k, v) acc. dict_setitem (=) acc k v) ps acc = acc @ ps"
proof (induction ps arbitrary: acc)
  case Nil
  then show ?case by simp
next
  case (Cons p ps)
  obtain k v where p: "p = (k, v)" by (cases p)
  from Cons.prems have fresh: "\<forall>k' \<in> fst ` set acc. \<not> k' = k"
    by (auto simp: p)
  from Cons.prems have "distinct (map fst ((acc @ [(k, v)]) @ ps))"
    by (simp add: p)
  then have "fold (\<lambda>(k, v) acc. dict_setitem (=) acc k v) ps (acc @ [(k, v)]) = (acc @ [(k, v)]) @ ps"
    by (rule Cons.IH)
  with fresh show ?case
    by (simp add: p dict_setitem_fresh)
qed

lemma dict_of_pairs_distinct: "distinct (map fst ps) \<Longrightarrow> dict_of_pairs ps = ps"
  using fold_setitem_distinct [of "[]" ps] by (simp add: dict_of_pairs_def dict_update_def)

section \<open>Facts about the cartesian product\<close>

lemma append_snoc_fun: "(@) (a @ [x]) = (\<lambda>ys. a @ x # ys)"
  by (simp add: fun_eq_iff)

lemma append_Nil_fun: "map ((@) []) xss = xss"
  by (induction xss) simp_all

lemma product_step_acc:
  "foldl (\<lambda>result pool. concat (map (\<lambda>x. map (\<lambda>y. x @ [y]) pool) result)) acc pools =
     concat (map (\<lambda>x. map ((@) x) (product_lists pools)) acc)"
proof (induction pools arbitrary: acc)
  case Nil
  show ?case by (induction acc) simp_all
next
  case (Cons pool pools)
  show ?case
    unfolding foldl_Cons Cons.IH
    by (induction acc) (simp_all add: map_concat comp_def append_snoc_fun)
qed

lemma itertools_product_lists: "itertools_product pools = product_lists pools"
  by (simp add: itertools_product_def product_step_acc append_Nil_fun)

lemma length_product_lists: "length (product_lists xss) = prod_list (map length xss)"
  by (induction xss) (simp_all add: length_concat comp_def sum_list_triv)

lemma dict_product_zip:
  assumes "distinct (map fst d)"
  shows "dict_product d = map (zip (map fst d)) (product_lists (map snd d))"
proof -
  have "dict_of_pairs (zip (map fst d) pms) = zip (map fst d) pms"
    if "pms \<in> set (product_lists (map snd d))" for pms
  proof -
    from that have "length pms = length d"
      by (auto dest: in_set_product_lists_length)
    then have "map fst (zip (map fst d) pms) = map fst d"
      by simp
    with assms show ?thesis
      by (simp add: dict_of_pairs_distinct)
  qed
  then show ?thesis
    by (simp add: dict_product_def itertools_product_lists)
qed

lemma length_itertools_product:
  "length (itertools_product pools) = prod_list (map length pools)"
  by (simp add: itertools_product_lists length_product_lists)

lemma length_dict_product:
  "length (dict_product d) = prod_list (map (length \<circ> snd) d)"
  by (simp add: dict_product_def length_itertools_product)

section \<open>Facts about the command line\<close>

lemma is_true_iff: "(isinstance_bool value \<and> value = PBool True) = (value = PBool True)"
  by (cases "value") auto

lemma cmd_line_fold:
  "fold (\<lambda>(name, value) args.
           if isinstance_bool value \<and> value = PBool True
           then args @ [''--'' @ name]
           else (args @ [''--'' @ name]) @ [py_str value]) kwargs acc =
   acc @ concat (map (\<lambda>(name, value).
                        if value = PBool True then [''--'' @ name]
                        else [''--'' @ name, py_str value]) kwargs)"
proof (induction kwargs arbitrary: acc)
  case Nil
  show ?case by simp
next
  case (Cons p kwargs)
  obtain name "value" where p: "p = (name, value)" by (cases p)
  from Cons.IH show ?case
    by (cases "value = PBool True") (simp_all add: p is_true_iff)
qed

section \<open>The parameter-combination generator: claims\<close>

text \<open>
  Claim C1. For every parameter grid \<open>G\<close> (a dictionary from parameter names to lists of
  candidate values), \<open>dict_product\<close> yields exactly as many mappings as the product of the
  lengths of the candidate lists; each mapping has the keys of \<open>G\<close>, once each and in the
  order of \<open>G\<close>; the tuples of values yielded are the cartesian product of the candidate
  lists, enumerated as \<open>product_lists\<close> does (each list in its own order, the first key
  varying slowest); and every tuple that picks one candidate for each key occurs. The
  result is a function of \<open>G\<close>, so the same grid always gives the same sequence.
\<close>

theorem dict_product_cartesian:
  assumes "distinct (map fst G)"
  shows "length (dict_product G) = prod_list (map (length \<circ> snd) G)
    \<and> (\<forall>m \<in> set (dict_product G). map fst m = map fst G)
    \<and> dict_product G = map (zip (map fst G)) (product_lists (map snd G))
    \<and> map (map snd) (dict_product G) = product_lists (map snd G)
    \<and> set (map (map snd) (dict_product G)) = {vs. list_all2 (\<lambda>v p. v \<in> set (snd p)) vs G}
    \<and> (\<forall>k vs G'. G = (k, vs) # G' \<longrightarrow>
          dict_product G = concat (map (\<lambda>v. map (Cons (k, v)) (dict_product G')) vs))"
proof -
  have zip: "dict_product G = map (zip (map fst G)) (product_lists (map snd G))"
    using assms by (rule dict_product_zip)
  have len: "length pms = length G" if "pms \<in> set (product_lists (map snd G))" for pms
    using that by (auto dest: in_set_product_lists_length)
  have keys: "\<forall>m \<in> set (dict_product G). map fst m = map fst G"
    by (auto simp: zip len)
  have vals: "map (map snd) (dict_product G) = product_lists (map snd G)"
    unfolding zip map_map by (rule map_idI) (simp add: len)
  have cover: "set (map (map snd) (dict_product G)) = {vs. list_all2 (\<lambda>v p. v \<in> set (snd p)) vs G}"
    unfolding vals product_lists_set by (simp add: list_all2_map2)
  have step: "dict_product G = concat (map (\<lambda>v. map (Cons (k, v)) (dict_product G')) vs)"
    if G: "G = (k, vs) # G'" for k vs G'
  proof -
    from assms have "distinct (map fst G')" by (simp add: G)
    then have "dict_product G' = map (zip (map fst G')) (product_lists (map snd G'))"
      by (rule dict_product_zip)
    with zip show ?thesis
      by (simp add: G map_concat comp_def)
  qed
  from length_dict_product zip keys vals cover step show ?thesis
    by blast
qed

theorem dict_product_cartesian_witness:
  "distinct (map fst [(''width'', [5, 10 :: int]), (''density'', [2, 4])])
   \<and> dict_product [(''width'', [5, 10 :: int]), (''density'', [2, 4])] =
       [[(''width'', 5), (''density'', 2)], [(''width'', 5), (''density'', 4)],
        [(''width'', 10), (''density'', 2)], [(''width'', 10), (''density'', 4)]]
   \<and> length (dict_product [(''width'', [5, 10 :: int]), (''density'', [2, 4])]) = 4"
proof -
  have d: "distinct (map fst [(''width'', [5, 10 :: int]), (''density'', [2, 4])])"
    by simp
  from dict_product_cartesian [OF d] show ?thesis
    by simp
qed

text \<open>
  Claim C2, as stated: for the empty grid the generator yields no combination at all.
  It does yield one: \<^verbatim>\<open>product()\<close> of no pools is the one empty tuple.
\<close>

theorem dict_product_empty_grid_counterexample:
  "dict_product ([] :: (string \<times> pyval list) list) \<noteq> []"
  by (simp add: dict_product_def itertools_product_def dict_of_pairs_def dict_update_def)

text \<open>
  Claim C2, amended. For the empty grid the generator yields exactly one combination, the
  empty mapping. It yields the empty sequence exactly when some parameter of the grid has
  an empty list of candidates.
\<close>

theorem dict_product_empty_grid:
  "dict_product ([] :: ('k \<times> 'v list) list) = [[]]
   \<and> (dict_product G = [] \<longleftrightarrow> (\<exists>p \<in> set G. snd p = []))"
proof -
  have "dict_product ([] :: ('k \<times> 'v list) list) = [[]]"
    by (simp add: dict_product_def itertools_product_def dict_of_pairs_def dict_update_def)
  moreover have "dict_product G = [] \<longleftrightarrow> (\<exists>p \<in> set G. snd p = [])"
  proof -
    have "dict_product G = [] \<longleftrightarrow> length (dict_product G) = 0"
      by simp
    also have "\<dots> \<longleftrightarrow> 0 \<in> set (map (length \<circ> snd) G)"
      unfolding length_dict_product by (rule prod_list_zero_iff)
    also have "\<dots> \<longleftrightarrow> (\<exists>p \<in> set G. snd p = [])"
      by (force simp: image_iff)
    finally show ?thesis .
  qed
  ultimately show ?thesis by simp
qed

theorem dict_product_empty_grid_witness:
  "dict_product ([] :: (string \<times> pyval list) list) = [[]]
   \<and> dict_product [(''width'', [] :: pyval list)] = []
   \<and> dict_product [(''width'', [PInt 5])] \<noteq> []"
  using dict_product_empty_grid [where ?'k = string and ?'v = pyval and G = "[(''width'', [])]"]
    dict_product_empty_grid [where ?'k = string and ?'v = pyval and G = "[(''width'', [PInt 5])]"]
  by simp

section \<open>The single-run driver: claims\<close>

text \<open>
  Claim C3. For every configuration, \<open>cmd_line_args\<close> is the interpreter token and the
  entry-point token followed, for each entry in the order of the configuration, by the
  token \<^verbatim>\<open>--name\<close> alone when the value is the boolean \<^verbatim>\<open>True\<close>, and by \<^verbatim>\<open>--name\<close> and the
  string form of the value otherwise. For the configuration
  \<^verbatim>\<open>{nodrawing: True, width: 13, rat: "ai.py"}\<close> the tokens after the first two are
  \<^verbatim>\<open>--nodrawing --width 13 --rat ai.py\<close>.
\<close>

theorem cmd_line_args_tokens:
  "cmd_line_args kwargs =
     [''python'', ''pyrat.py''] @
     concat (map (\<lambda>(name, value).
                    if value = PBool True then [''--'' @ name]
                    else [''--'' @ name, py_str value]) kwargs)
   \<and> drop 2 (cmd_line_args
        [(''nodrawing'', PBool True), (''width'', PInt 13), (''rat'', PStr ''ai.py'')]) =
      [''--nodrawing'', ''--width'', ''13'', ''--rat'', ''ai.py'']"
proof -
  have general: "cmd_line_args kw =
     [''python'', ''pyrat.py''] @
     concat (map (\<lambda>(name, value).
                    if value = PBool True then [''--'' @ name]
                    else [''--'' @ name, py_str value]) kw)" for kw
    unfolding cmd_line_args_def by (rule cmd_line_fold)
  have example: "drop 2 (cmd_line_args
        [(''nodrawing'', PBool True), (''width'', PInt 13), (''rat'', PStr ''ai.py'')]) =
      [''--nodrawing'', ''--width'', ''13'', ''--rat'', ''ai.py'']"
    by (simp add: general str_int_def)
  from general example show ?thesis
    by (rule conjI)
qed

theorem cmd_line_args_tokens_witness:
  "cmd_line_args [(''synchronous'', PBool True), (''tests'', PInt 10), (''mud'', PBool False),
                  (''rat'', PPath [] [''AIs'', ''lab3_bfs.py''])] =
     [''python'', ''pyrat.py'', ''--synchronous'', ''--tests'', ''10'', ''--mud'', ''False'',
      ''--rat'', ''AIs/lab3_bfs.py'']"
  using cmd_line_args_tokens [of "[(''synchronous'', PBool True), (''tests'', PInt 10),
      (''mud'', PBool False), (''rat'', PPath [] [''AIs'', ''lab3_bfs.py''])]"]
  by (simp add: str_int_def path_str_def)

section \<open>Facts about the pattern search\<close>

declare match_csv_path.simps [simp del] pattern_search.simps [simp del]

lemma take_eq_iff: "take (length x) s = x \<longleftrightarrow> (\<exists>r. s = x @ r)"
proof
  assume "take (length x) s = x"
  then have "s = x @ drop (length x) s"
    by (metis append_take_drop_id)
  then show "\<exists>r. s = x @ r" ..
next
  assume "\<exists>r. s = x @ r"
  then show "take (length x) s = x" by auto
qed

lemma at_eol_iff: "at_eol s \<longleftrightarrow> s = [] \<or> (\<exists>r. s = newline # r)"
  by (cases s) (auto simp: at_eol_def)

lemma at_eol_append: "at_eol (us @ r) \<Longrightarrow> newline \<notin> set us \<Longrightarrow> us = []"
  by (cases us) (auto simp: at_eol_def)

lemma match_here_gen:
  assumes l: "newline \<notin> set l" and rest: "at_eol rest" and x: "newline \<notin> set x"
  shows "(take (length x) (l @ rest) = x \<and> at_eol (drop (length x) (l @ rest))) \<longleftrightarrow> l = x"
proof
  assume "l = x"
  with rest show "take (length x) (l @ rest) = x \<and> at_eol (drop (length x) (l @ rest))"
    by simp
next
  assume a: "take (length x) (l @ rest) = x \<and> at_eol (drop (length x) (l @ rest))"
  then obtain r where r: "l @ rest = x @ r"
    unfolding take_eq_iff by blast
  with a have eol: "at_eol r"
    by simp
  from r obtain us where "(l = x @ us \<and> us @ rest = r) \<or> (l @ us = x \<and> rest = us @ r)"
    unfolding append_eq_append_conv2 by blast
  then show "l = x"
  proof
    assume c: "l = x @ us \<and> us @ rest = r"
    with eol have "at_eol (us @ rest)" by simp
    moreover from c l have "newline \<notin> set us" by simp
    ultimately have "us = []" by (rule at_eol_append)
    with c show ?thesis by simp
  next
    assume c: "l @ us = x \<and> rest = us @ r"
    with rest have "at_eol (us @ r)" by simp
    moreover from c x have "newline \<notin> set us" by auto
    ultimately have "us = []" by (rule at_eol_append)
    with c show ?thesis by simp
  qed
qed

lemma suffix_Cons_gen:
  assumes "c # l \<noteq> x"
  shows "(\<exists>q. c # l = q @ x) \<longleftrightarrow> (\<exists>q. l = q @ x)"
proof
  assume "\<exists>q. c # l = q @ x"
  then obtain q where q: "c # l = q @ x" ..
  with assms obtain q' where "q = c # q'"
    by (cases q) auto
  with q have "l = q' @ x" by simp
  then show "\<exists>q. l = q @ x" ..
next
  assume "\<exists>q. l = q @ x"
  then obtain q where "l = q @ x" ..
  then have "c # l = (c # q) @ x" by simp
  then show "\<exists>q. c # l = q @ x" ..
qed

lemma ends_with_csv_iff: "ends_with_csv p \<longleftrightarrow> (\<exists>q. p = q @ ''.csv'')"
proof
  assume "ends_with_csv p"
  then have "p = take (length p - 4) p @ ''.csv''"
    unfolding ends_with_csv_def by (metis append_take_drop_id)
  then show "\<exists>q. p = q @ ''.csv''" ..
next
  assume "\<exists>q. p = q @ ''.csv''"
  then show "ends_with_csv p"
    by (auto simp: ends_with_csv_def)
qed

lemma newline_not_in_csv: "newline \<notin> set ''.csv''"
  by (simp add: newline_def)

lemma match_here:
  assumes "newline \<notin> set l" and "at_eol rest"
  shows "(take 4 (l @ rest) = ''.csv'' \<and> at_eol (drop 4 (l @ rest))) \<longleftrightarrow> l = ''.csv''"
proof -
  have len: "length ''.csv'' = 4" by simp
  from match_here_gen [OF assms newline_not_in_csv] show ?thesis
    unfolding len .
qed

lemma ends_with_csv_Cons:
  "c # l \<noteq> ''.csv'' \<Longrightarrow> ends_with_csv (c # l) = ends_with_csv l"
  unfolding ends_with_csv_iff by (rule suffix_Cons_gen)


lemma match_csv_path_here:
  "take 4 s = ''.csv'' \<and> at_eol (drop 4 s) \<Longrightarrow> match_csv_path s = Some ''.csv''"
  by (subst match_csv_path.simps) simp

lemma match_csv_path_later:
  "\<not> (take 4 s = ''.csv'' \<and> at_eol (drop 4 s)) \<Longrightarrow>
     match_csv_path s =
       (case s of [] \<Rightarrow> None
        | c # cs \<Rightarrow> if c = newline then None else map_option (Cons c) (match_csv_path cs))"
  by (subst match_csv_path.simps) (simp only: if_False)

lemma match_csv_path_line:
  "newline \<notin> set l \<Longrightarrow> at_eol rest \<Longrightarrow>
     match_csv_path (l @ rest) = (if ends_with_csv l then Some l else None)"
proof (induction l)
  case Nil
  from match_here [OF Nil.prems]
  have "\<not> (take 4 ([] @ rest) = ''.csv'' \<and> at_eol (drop 4 ([] @ rest)))"
    by blast
  then have "match_csv_path ([] @ rest) =
       (case [] @ rest of [] \<Rightarrow> None
        | c # cs \<Rightarrow> if c = newline then None else map_option (Cons c) (match_csv_path cs))"
    by (rule match_csv_path_later)
  moreover have "\<not> ends_with_csv []"
    by (simp add: ends_with_csv_def)
  ultimately show ?case
    using Nil.prems(2) by (auto simp: at_eol_iff)
next
  case (Cons c l)
  show ?case
  proof (cases "c # l = ''.csv''")
    case True
    with match_here [OF Cons.prems]
    have "take 4 ((c # l) @ rest) = ''.csv'' \<and> at_eol (drop 4 ((c # l) @ rest))"
      by blast
    then have "match_csv_path ((c # l) @ rest) = Some ''.csv''"
      by (rule match_csv_path_here)
    moreover have "ends_with_csv ''.csv''"
      by (simp add: ends_with_csv_def)
    ultimately show ?thesis
      by (simp add: True)
  next
    case False
    with match_here [OF Cons.prems]
    have "\<not> (take 4 ((c # l) @ rest) = ''.csv'' \<and> at_eol (drop 4 ((c # l) @ rest)))"
      by blast
    then have "match_csv_path ((c # l) @ rest) =
       (case (c # l) @ rest of [] \<Rightarrow> None
        | c # cs \<Rightarrow> if c = newline then None else map_option (Cons c) (match_csv_path cs))"
      by (rule match_csv_path_later)
    moreover from Cons have "match_csv_path (l @ rest) = (if ends_with_csv l then Some l else None)"
      by simp
    moreover note ends_with_csv_Cons [OF False]
    moreover from Cons.prems have "c \<noteq> newline" by auto
    ultimately show ?thesis
      by simp
  qed
qed

lemma newline_not_in_prefix: "newline \<notin> set stats_prefix"
  by (simp add: newline_def stats_prefix_def)

lemma take_prefix_line:
  assumes l: "newline \<notin> set l" and rest: "at_eol rest" and x: "newline \<notin> set x"
  shows "take (length x) (l @ rest) = x \<longleftrightarrow> take (length x) l = x"
proof
  assume "take (length x) l = x"
  then obtain r where "l = x @ r"
    unfolding take_eq_iff ..
  then show "take (length x) (l @ rest) = x"
    by simp
next
  assume "take (length x) (l @ rest) = x"
  then obtain r where "l @ rest = x @ r"
    unfolding take_eq_iff ..
  then obtain us where "(l = x @ us \<and> us @ rest = r) \<or> (l @ us = x \<and> rest = us @ r)"
    unfolding append_eq_append_conv2 by blast
  then show "take (length x) l = x"
  proof
    assume "l = x @ us \<and> us @ rest = r"
    then show ?thesis by simp
  next
    assume c: "l @ us = x \<and> rest = us @ r"
    with rest have "at_eol (us @ r)" by simp
    moreover from c x have "newline \<notin> set us" by auto
    ultimately have "us = []" by (rule at_eol_append)
    with c show ?thesis by simp
  qed
qed

lemma attempt_line:
  assumes l: "newline \<notin> set l" and rest: "at_eol rest"
  shows "(if take (length stats_prefix) (l @ rest) = stats_prefix
          then match_csv_path (drop (length stats_prefix) (l @ rest)) else None) =
         (if stats_line l then Some (drop (length stats_prefix) l) else None)"
proof (cases "take (length stats_prefix) l = stats_prefix")
  case True
  then obtain r where r: "l = stats_prefix @ r"
    unfolding take_eq_iff ..
  with l have "newline \<notin> set r" by simp
  then have "match_csv_path (r @ rest) = (if ends_with_csv r then Some r else None)"
    using rest by (rule match_csv_path_line)
  then show ?thesis
    by (simp add: r stats_line_def)
next
  case False
  with take_prefix_line [OF l rest newline_not_in_prefix] show ?thesis
    by (simp add: stats_line_def)
qed

lemma pattern_search_mid_line:
  "newline \<notin> set l \<Longrightarrow> at_eol rest \<Longrightarrow>
     pattern_search False (l @ rest) =
       (case rest of [] \<Rightarrow> None | c # rest' \<Rightarrow> pattern_search True rest')"
proof (induction l)
  case Nil
  then show ?case
    by (subst pattern_search.simps) (auto simp: at_eol_iff)
next
  case (Cons c l)
  then have "pattern_search False (l @ rest) =
       (case rest of [] \<Rightarrow> None | c # rest' \<Rightarrow> pattern_search True rest')"
    by simp
  moreover from Cons.prems have "c \<noteq> newline" by auto
  ultimately show ?case
    by (subst pattern_search.simps) simp
qed

lemma pattern_search_line:
  assumes l: "newline \<notin> set l" and rest: "at_eol rest"
  shows "pattern_search True (l @ rest) =
       (if stats_line l then Some (drop (length stats_prefix) l)
        else (case rest of [] \<Rightarrow> None | c # rest' \<Rightarrow> pattern_search True rest'))"
proof (cases "stats_line l")
  case True
  with attempt_line [OF l rest] show ?thesis
    by (subst pattern_search.simps) simp
next
  case False
  note att = attempt_line [OF l rest]
  show ?thesis
  proof (cases l)
    case Nil
    with att False rest show ?thesis
      by (subst pattern_search.simps) (auto simp: at_eol_iff)
  next
    case (Cons c l')
    with l have "c \<noteq> newline" and "newline \<notin> set l'" by auto
    with pattern_search_mid_line [of l' rest] rest
    have "pattern_search (c = newline) (l' @ rest) =
       (case rest of [] \<Rightarrow> None | c # rest' \<Rightarrow> pattern_search True rest')"
      by simp
    with att False Cons show ?thesis
      by (subst pattern_search.simps) simp
  qed
qed

lemma lines_of_line:
  "newline \<notin> set l \<Longrightarrow> at_eol rest \<Longrightarrow>
     lines_of (l @ rest) = l # (case rest of [] \<Rightarrow> [] | c # rest' \<Rightarrow> lines_of rest')"
  by (induction l) (auto simp: at_eol_iff)

lemma pattern_search_lines:
  "pattern_search True s =
     map_option (drop (length stats_prefix)) (find stats_line (lines_of s))"
proof (induction s rule: length_induct)
  case (1 s)
  define l where "l = takeWhile (\<lambda>c. c \<noteq> newline) s"
  define rest where "rest = dropWhile (\<lambda>c. c \<noteq> newline) s"
  have s: "s = l @ rest"
    by (simp add: l_def rest_def)
  have l: "newline \<notin> set l"
    by (auto simp: l_def dest: set_takeWhileD)
  have rest: "at_eol rest"
  proof (cases rest)
    case Nil
    then show ?thesis by (simp add: at_eol_def)
  next
    case (Cons c rest')
    then have "c = hd (dropWhile (\<lambda>c. c \<noteq> newline) s)" and "dropWhile (\<lambda>c. c \<noteq> newline) s \<noteq> []"
      by (simp_all add: rest_def)
    then have "c = newline"
      using hd_dropWhile [of "\<lambda>c. c \<noteq> newline" s] by simp
    with Cons show ?thesis by (simp add: at_eol_def)
  qed
  show ?case
  proof (cases rest)
    case Nil
    with pattern_search_line [OF l rest] lines_of_line [OF l rest] show ?thesis
      by (simp add: s)
  next
    case (Cons c rest')
    then have "length rest' < length s"
      by (simp add: s)
    with 1 have "pattern_search True rest' =
       map_option (drop (length stats_prefix)) (find stats_line (lines_of rest'))"
      by blast
    with Cons pattern_search_line [OF l rest] lines_of_line [OF l rest] show ?thesis
      by (simp add: s)
  qed
qed

section \<open>Path extraction: claims\<close>

text \<open>
  Claim C4. When some line of the captured output is \<^verbatim>\<open>Stats can be found at: <path>\<close> with
  a path that ends in \<^verbatim>\<open>.csv\<close>, \<open>extract_csv_path\<close> returns the path of the first such line,
  and nothing else of the output: the search goes over the whole text and is anchored at
  the lines. For the output \<^verbatim>\<open>"irrelevant\nStats can be found at: /tmp/run1.csv\nmore\n"\<close>
  it returns \<^verbatim>\<open>/tmp/run1.csv\<close>.
\<close>

theorem extract_csv_path_stats_line:
  "(find stats_line (lines_of stdout) = Some (stats_prefix @ path) \<longrightarrow>
      extract_csv_path stdout = Inr path)
   \<and> extract_csv_path
        (''irrelevant'' @ [newline] @ ''Stats can be found at: /tmp/run1.csv'' @ [newline] @
         ''more'' @ [newline]) = Inr ''/tmp/run1.csv''"
proof
  show "find stats_line (lines_of stdout) = Some (stats_prefix @ path) \<longrightarrow>
      extract_csv_path stdout = Inr path"
    by (simp add: extract_csv_path_def pattern_search_lines)
  show "extract_csv_path
        (''irrelevant'' @ [newline] @ ''Stats can be found at: /tmp/run1.csv'' @ [newline] @
         ''more'' @ [newline]) = Inr ''/tmp/run1.csv''"
    by code_simp
qed

theorem extract_csv_path_stats_line_witness:
  "find stats_line (lines_of (''maze 5x5'' @ [newline] @
       ''Stats can be found at: saves/a.csv'' @ [newline] @
       ''Stats can be found at: saves/b.csv'')) = Some (stats_prefix @ ''saves/a.csv'')
   \<and> extract_csv_path (''maze 5x5'' @ [newline] @
       ''Stats can be found at: saves/a.csv'' @ [newline] @
       ''Stats can be found at: saves/b.csv'') = Inr ''saves/a.csv''"
proof -
  have first: "find stats_line (lines_of (''maze 5x5'' @ [newline] @
       ''Stats can be found at: saves/a.csv'' @ [newline] @
       ''Stats can be found at: saves/b.csv'')) = Some (stats_prefix @ ''saves/a.csv'')"
    by code_simp
  with extract_csv_path_stats_line [of "''maze 5x5'' @ [newline] @
       ''Stats can be found at: saves/a.csv'' @ [newline] @
       ''Stats can be found at: saves/b.csv''" "''saves/a.csv''"]
  show ?thesis
    by blast
qed

text \<open>
  Claim C5. When no line of the captured output is \<^verbatim>\<open>Stats can be found at: <path>\<close> with a
  path ending in \<^verbatim>\<open>.csv\<close>, \<open>extract_csv_path\<close> raises an error and returns no path; a run
  with this output ends with that error, and so does the sweep, which makes no further
  run.
\<close>

theorem extract_csv_path_no_stats_line:
  assumes "\<forall>l \<in> set (lines_of stdout). \<not> stats_line l"
  shows "extract_csv_path stdout = Inl (AttributeError ''groupdict'')
    \<and> (\<forall>(w :: ('ds, 'row) world) t kwargs.
          subprocess_stdout w t (cmd_line_args kwargs) = stdout \<longrightarrow>
          run w t kwargs = Inl (AttributeError ''groupdict''))
    \<and> (\<forall>(w :: ('ds, 'row) world) link params rest kwargs results runs.
          subprocess_stdout w (length runs) (cmd_line_args (overlay link kwargs params)) = stdout \<longrightarrow>
          sweep_loop w link (params # rest) kwargs results runs =
            (Inl (AttributeError ''groupdict''), runs @ [overlay link kwargs params]))"
proof -
  from assms have "find stats_line (lines_of stdout) = None"
    by (simp add: find_None_iff)
  then have fails: "extract_csv_path stdout = Inl (AttributeError ''groupdict'')"
    by (simp add: extract_csv_path_def pattern_search_lines)
  then have run_fails: "run w t kwargs = Inl (AttributeError ''groupdict'')"
    if "subprocess_stdout w t (cmd_line_args kwargs) = stdout"
    for w :: "('ds, 'row) world" and t kwargs
    using that by (simp add: run_def)
  have "sweep_loop w link (params # rest) kwargs results runs =
            (Inl (AttributeError ''groupdict''), runs @ [overlay link kwargs params])"
    if "subprocess_stdout w (length runs) (cmd_line_args (overlay link kwargs params)) = stdout"
    for w :: "('ds, 'row) world" and link params rest kwargs results runs
    using run_fails [OF that] by simp
  with fails run_fails show ?thesis
    by blast
qed

theorem extract_csv_path_no_stats_line_witness:
  "list_all (\<lambda>l. \<not> stats_line l)
     (lines_of (''Stats can be found at: out.txt'' @ [newline] @
        ''see Stats can be found at: out.csv''))
   \<and> extract_csv_path (''Stats can be found at: out.txt'' @ [newline] @
        ''see Stats can be found at: out.csv'') = Inl (AttributeError ''groupdict'')"
proof -
  have none: "list_all (\<lambda>l. \<not> stats_line l)
     (lines_of (''Stats can be found at: out.txt'' @ [newline] @
        ''see Stats can be found at: out.csv''))"
    by code_simp
  then have "\<forall>l \<in> set (lines_of (''Stats can be found at: out.txt'' @ [newline] @
        ''see Stats can be found at: out.csv'')). \<not> stats_line l"
    by (simp only: list_all_iff)
  from extract_csv_path_no_stats_line [OF this] none show ?thesis
    by blast
qed

section \<open>Attribute assignment: claims\<close>

lemma map_of_dict_setitem:
  "map_of (dict_setitem (=) d k v) = (map_of d)(k \<mapsto> v)"
  by (induction d) (auto simp: fun_eq_iff)

lemma dict_update_single: "dict_update eq d [(k, v)] = dict_setitem eq d k v"
  by (simp add: dict_update_def)

lemma init_fields:
  "inst_dict (PyRatGame_init kwargs) = [(''kwargs'', 0)]
   \<and> store (PyRatGame_init kwargs) 0 = init_kwargs kwargs"
  by (simp add: PyRatGame_init_def object_setattr_def)

text \<open>
  Claim C8. On a constructed driver (one whose field \<^verbatim>\<open>kwargs\<close> refers to its configuration
  dictionary, as \<^verbatim>\<open>__init__\<close> leaves it), the assignment \<^verbatim>\<open>driver.name = value\<close> succeeds for
  every name and value; it stores the value in the configuration under that name,
  leaves every other entry of the configuration as it was, and changes nothing else: the
  fields of the instance are the same as before, also when the name is \<^verbatim>\<open>kwargs\<close> itself,
  and no other object of the store is touched.
\<close>

theorem setattr_writes_configuration:
  assumes "map_of (inst_dict self) ''kwargs'' = Some addr"
  shows "(case PyRatGame_setattr self name value of
            Inl e \<Rightarrow> False
          | Inr self' \<Rightarrow>
              inst_dict self' = inst_dict self
              \<and> store self' addr = dict_setitem (=) (store self addr) name value
              \<and> map_of (store self' addr) name = Some value
              \<and> (\<forall>k. k \<noteq> name \<longrightarrow> map_of (store self' addr) k = map_of (store self addr) k)
              \<and> (\<forall>a. a \<noteq> addr \<longrightarrow> store self' a = store self a))
    \<and> map_of (inst_dict (PyRatGame_init kwargs)) ''kwargs'' = Some 0
    \<and> store (PyRatGame_init kwargs) 0 = init_kwargs kwargs"
  using assms
  by (simp add: PyRatGame_setattr_def getattr_kwargs_def dict_update_single
      map_of_dict_setitem init_fields)

theorem setattr_writes_configuration_witness:
  "PyRatGame_setattr (PyRatGame_init [(''width'', PInt 13)]) ''kwargs'' (PInt 34) =
     Inr \<lparr>inst_dict = [(''kwargs'', 0)],
          store = (\<lambda>a. [])(0 := [(''synchronous'', PBool True), (''nodrawing'', PBool True),
                                   (''width'', PInt 13), (''kwargs'', PInt 34)])\<rparr>"
proof -
  have f: "map_of (inst_dict (PyRatGame_init [(''width'', PInt 13)])) ''kwargs'' = Some 0"
    by (simp add: init_fields)
  from setattr_writes_configuration [OF f, of "''kwargs''" "PInt 34"] show ?thesis
    by (auto simp: PyRatGame_init_def object_setattr_def init_kwargs_def default_kwargs_def
        dict_update_def fun_eq_iff split: sum.splits)
qed

section \<open>Facts about the sweep\<close>

lemma map_of_set_param:
  "map_of (set_param link kw (n, v)) =
     (if link \<and> n = ''height'' then (map_of kw)(''height'' \<mapsto> v, ''width'' \<mapsto> v)
      else if link \<and> n = ''width'' then (map_of kw)(''width'' \<mapsto> v, ''height'' \<mapsto> v)
      else (map_of kw)(n \<mapsto> v))"
  by (simp add: set_param_def map_of_dict_setitem Let_def)

lemma overlay_Cons: "overlay link kw (p # ps) = overlay link (set_param link kw p) ps"
  by (simp add: overlay_def)

lemma overlay_Nil: "overlay link kw [] = kw"
  by (simp add: overlay_def)

lemma overlay_square:
  "''width'' \<in> fst ` set params \<or> ''height'' \<in> fst ` set params
     \<or> map_of kw ''height'' = map_of kw ''width'' \<Longrightarrow>
   map_of (overlay True kw params) ''height'' = map_of (overlay True kw params) ''width''"
proof (induction params arbitrary: kw)
  case Nil
  then show ?case by (simp add: overlay_Nil)
next
  case (Cons p params)
  obtain n v where p: "p = (n, v)" by (cases p)
  have "''width'' \<in> fst ` set params \<or> ''height'' \<in> fst ` set params
     \<or> map_of (set_param True kw p) ''height'' = map_of (set_param True kw p) ''width''"
    using Cons.prems by (auto simp: p map_of_set_param)
  then show ?case
    unfolding overlay_Cons by (rule Cons.IH)
qed

lemma overlay_lookup:
  assumes "distinct (map fst params)"
    and "\<not> link \<or> k \<notin> {''height'', ''width''}
         \<or> (k = ''height'' \<and> ''width'' \<notin> fst ` set params)
         \<or> (k = ''width'' \<and> ''height'' \<notin> fst ` set params)"
  shows "map_of (overlay link kw params) k =
           (case map_of params k of Some v \<Rightarrow> Some v | None \<Rightarrow> map_of kw k)"
  using assms
proof (induction params arbitrary: kw)
  case Nil
  then show ?case by (simp add: overlay_Nil)
next
  case (Cons p params)
  obtain n v where p: "p = (n, v)" by (cases p)
  from Cons.prems have d: "distinct (map fst params)" and fresh: "n \<notin> fst ` set params"
    by (simp_all add: p)
  from Cons.prems(2) have adm: "\<not> link \<or> k \<notin> {''height'', ''width''}
         \<or> (k = ''height'' \<and> ''width'' \<notin> fst ` set params)
         \<or> (k = ''width'' \<and> ''height'' \<notin> fst ` set params)"
    by auto
  have IH: "map_of (overlay link (set_param link kw p) params) k =
           (case map_of params k of Some v \<Rightarrow> Some v | None \<Rightarrow> map_of (set_param link kw p) k)"
    using d adm by (rule Cons.IH)
  show ?case
  proof (cases "k = n")
    case True
    with fresh have "map_of params k = None"
      by (simp add: map_of_eq_None_iff)
    with IH True show ?thesis
      by (simp add: overlay_Cons p map_of_set_param)
  next
    case False
    with Cons.prems(2) have "map_of (set_param link kw p) k = map_of kw k"
      by (auto simp: p map_of_set_param)
    with IH False show ?thesis
      by (auto simp: overlay_Cons p split: option.splits)
  qed
qed


lemma sweep_loop_runs:
  "sweep_loop w link combos kw res runs = (r, runs') \<Longrightarrow>
     \<exists>n \<le> length combos. runs' = runs @ take n (configs link kw combos)"
proof (induction combos arbitrary: kw res runs)
  case Nil
  then show ?case by simp
next
  case (Cons params rest)
  let ?kw = "overlay link kw params"
  show ?case
  proof (cases "run w (length runs) ?kw")
    case (Inl e)
    with Cons.prems have "runs' = runs @ take 1 (configs link kw (params # rest))"
      by simp
    then show ?thesis
      by (intro exI [of _ 1]) simp
  next
    case (Inr pd)
    obtain csv_path stats where pd: "pd = (csv_path, stats)" by (cases pd)
    show ?thesis
    proof (cases "render_pvalues params")
      case (Inl e)
      with Cons.prems Inr pd have "runs' = runs @ take 1 (configs link kw (params # rest))"
        by simp
      then show ?thesis
        by (intro exI [of _ 1]) simp
    next
      case render: (Inr pvalues)
      with Cons.prems Inr pd
      have "sweep_loop w link rest ?kw (dict_setitem tuple_eq res pvalues (mean w stats))
              (runs @ [?kw]) = (r, runs')"
        by (simp add: Let_def)
      then obtain n where "n \<le> length rest"
        and "runs' = (runs @ [?kw]) @ take n (configs link ?kw rest)"
        using Cons.IH by blast
      then have "Suc n \<le> length (params # rest)
        \<and> runs' = runs @ take (Suc n) (configs link kw (params # rest))"
        by simp
      then show ?thesis
        by blast
    qed
  qed
qed

lemma length_configs: "length (configs link kw combos) = length combos"
  by (induction combos arbitrary: kw) simp_all

lemma configs_square:
  "\<forall>c \<in> set combos. ''width'' \<in> fst ` set c \<or> ''height'' \<in> fst ` set c \<Longrightarrow>
   cfg \<in> set (configs True kw combos) \<Longrightarrow> map_of cfg ''height'' = map_of cfg ''width''"
proof (induction combos arbitrary: kw)
  case Nil
  then show ?case by simp
next
  case (Cons c combos)
  from Cons.prems(2) have "cfg = overlay True kw c \<or> cfg \<in> set (configs True (overlay True kw c) combos)"
    by simp
  then show ?case
  proof
    assume cfg: "cfg = overlay True kw c"
    from Cons.prems(1) have "''width'' \<in> fst ` set c \<or> ''height'' \<in> fst ` set c"
      by simp
    then have "''width'' \<in> fst ` set c \<or> ''height'' \<in> fst ` set c
       \<or> map_of kw ''height'' = map_of kw ''width''"
      by blast
    then show ?thesis
      unfolding cfg by (rule overlay_square)
  next
    assume "cfg \<in> set (configs True (overlay True kw c) combos)"
    moreover from Cons.prems(1)
    have "\<forall>c \<in> set combos. ''width'' \<in> fst ` set c \<or> ''height'' \<in> fst ` set c"
      by simp
    ultimately show ?thesis
      by (rule Cons.IH [rotated])
  qed
qed

lemma configs_lookup:
  assumes "\<forall>c \<in> set combos. map fst c = ks" and "distinct ks"
    and "\<not> link \<or> k \<notin> {''height'', ''width''}
         \<or> (k = ''height'' \<and> ''width'' \<notin> set ks)
         \<or> (k = ''width'' \<and> ''height'' \<notin> set ks)"
    and "i < length combos"
  shows "map_of (configs link kw combos ! i) k =
           (case map_of (combos ! i) k of Some v \<Rightarrow> Some v | None \<Rightarrow> map_of kw k)"
  using assms(1,4)
proof (induction combos arbitrary: kw i)
  case Nil
  then show ?case by simp
next
  case (Cons c combos)
  from Cons.prems have c: "map fst c = ks" by simp
  with assms(2) have dc: "distinct (map fst c)" by simp
  from assms(3) c have adm: "\<not> link \<or> k \<notin> {''height'', ''width''}
         \<or> (k = ''height'' \<and> ''width'' \<notin> fst ` set c)
         \<or> (k = ''width'' \<and> ''height'' \<notin> fst ` set c)"
    by (metis list.set_map)
  note first = overlay_lookup [OF dc adm, of kw]
  show ?case
  proof (cases i)
    case 0
    with first show ?thesis by simp
  next
    case (Suc j)
    with Cons.prems have j: "j < length combos" and all: "\<forall>c \<in> set combos. map fst c = ks"
      by simp_all
    then have "combos ! j \<in> set combos" by simp
    with all c have "map fst (combos ! j) = map fst c" by simp
    then have "fst ` set (combos ! j) = fst ` set c"
      by (metis list.set_map)
    then have same: "map_of (combos ! j) k = None \<longleftrightarrow> map_of c k = None"
      by (simp add: map_of_eq_None_iff)
    from Cons.IH [OF all j]
    have "map_of (configs link (overlay link kw c) combos ! j) k =
           (case map_of (combos ! j) k of Some v \<Rightarrow> Some v
            | None \<Rightarrow> map_of (overlay link kw c) k)" .
    with first same Suc show ?thesis
      by (auto split: option.splits)
  qed
qed

lemma dict_product_keys:
  "distinct (map fst G) \<Longrightarrow> m \<in> set (dict_product G) \<Longrightarrow> map fst m = map fst G"
  by (auto simp: dict_product_zip dest: in_set_product_lists_length)

lemma pyrat_multiruns_runs:
  assumes "pyrat_multiruns w fixed G link = (r, runs)"
  shows "\<exists>n \<le> length (dict_product G).
           runs = take n (configs link (init_kwargs fixed) (dict_product G))"
proof -
  obtain r' runs' where loop:
    "sweep_loop w link (dict_product G) (init_kwargs fixed) [] [] = (r', runs')"
    by (cases "sweep_loop w link (dict_product G) (init_kwargs fixed) [] []")
  with assms have "runs = runs'"
    by (auto simp: pyrat_multiruns_def split: sum.splits)
  with sweep_loop_runs [OF loop] show ?thesis
    by simp
qed

section \<open>Linking height and width: claims\<close>

text \<open>
  Claim C7. In a sweep with \<^verbatim>\<open>link_height_width=True\<close>, whenever the grid sweeps \<^verbatim>\<open>width\<close> or
  \<^verbatim>\<open>height\<close>, every run is made with a configuration in which \<^verbatim>\<open>height\<close> equals \<^verbatim>\<open>width\<close>; when
  only one of the two is swept, both hold the value the combination gives to the swept
  one. With the flag disabled, or for every other option name, nothing is mirrored: the
  option holds the value of the combination when the grid sweeps it, and otherwise the
  value the fixed parameters (and the defaults) gave it.
\<close>

theorem link_height_width_mirrors:
  assumes "distinct (map fst G)" and "pyrat_multiruns w fixed G link = (r, runs)"
  shows "(link \<and> (''width'' \<in> fst ` set G \<or> ''height'' \<in> fst ` set G) \<longrightarrow>
            (\<forall>cfg \<in> set runs. map_of cfg ''height'' = map_of cfg ''width''))
    \<and> (link \<and> ''width'' \<in> fst ` set G \<and> ''height'' \<notin> fst ` set G \<longrightarrow>
            (\<forall>i < length runs.
               map_of (runs ! i) ''width'' = map_of (dict_product G ! i) ''width''
               \<and> map_of (runs ! i) ''height'' = map_of (dict_product G ! i) ''width''))
    \<and> (link \<and> ''height'' \<in> fst ` set G \<and> ''width'' \<notin> fst ` set G \<longrightarrow>
            (\<forall>i < length runs.
               map_of (runs ! i) ''height'' = map_of (dict_product G ! i) ''height''
               \<and> map_of (runs ! i) ''width'' = map_of (dict_product G ! i) ''height''))
    \<and> (\<not> link \<or> k \<notin> {''height'', ''width''} \<longrightarrow>
            (\<forall>i < length runs.
               map_of (runs ! i) k =
                 (case map_of (dict_product G ! i) k of
                    Some v \<Rightarrow> Some v
                  | None \<Rightarrow> map_of (init_kwargs fixed) k)))"
proof -
  let ?combos = "dict_product G"
  let ?cfgs = "configs link (init_kwargs fixed) ?combos"
  from pyrat_multiruns_runs [OF assms(2)]
  obtain n where n: "n \<le> length ?combos" and runs: "runs = take n ?cfgs"
    by blast
  have keys: "\<forall>c \<in> set ?combos. map fst c = map fst G"
    using assms(1) by (auto dest: dict_product_keys)
  have nth: "runs ! i = ?cfgs ! i" and bound: "i < length ?combos" if "i < length runs" for i
    using that n by (simp_all add: runs length_configs)
  have sub: "set runs \<subseteq> set ?cfgs"
    unfolding runs by (rule set_take_subset)
  have lookup: "map_of (runs ! i) k' =
      (case map_of (?combos ! i) k' of Some v \<Rightarrow> Some v | None \<Rightarrow> map_of (init_kwargs fixed) k')"
    if "i < length runs"
      and "\<not> link \<or> k' \<notin> {''height'', ''width''}
         \<or> (k' = ''height'' \<and> ''width'' \<notin> set (map fst G))
         \<or> (k' = ''width'' \<and> ''height'' \<notin> set (map fst G))" for i k'
    unfolding nth [OF that(1)]
    using keys assms(1) that(2) bound [OF that(1)] by (rule configs_lookup)
  have square: "map_of cfg ''height'' = map_of cfg ''width''"
    if "link" and "''width'' \<in> fst ` set G \<or> ''height'' \<in> fst ` set G" and "cfg \<in> set runs" for cfg
  proof -
    from that(2) have "''width'' \<in> set (map fst G) \<or> ''height'' \<in> set (map fst G)"
      by simp
    with keys have "\<forall>c \<in> set ?combos. ''width'' \<in> fst ` set c \<or> ''height'' \<in> fst ` set c"
      by (metis list.set_map)
    moreover from that(1,3) sub have "cfg \<in> set (configs True (init_kwargs fixed) ?combos)"
      by auto
    ultimately show ?thesis
      by (rule configs_square)
  qed
  have c1: "link \<and> (''width'' \<in> fst ` set G \<or> ''height'' \<in> fst ` set G) \<longrightarrow>
            (\<forall>cfg \<in> set runs. map_of cfg ''height'' = map_of cfg ''width'')"
    using square by blast
  have c2: "link \<and> ''width'' \<in> fst ` set G \<and> ''height'' \<notin> fst ` set G \<longrightarrow>
            (\<forall>i < length runs.
               map_of (runs ! i) ''width'' = map_of (dict_product G ! i) ''width''
               \<and> map_of (runs ! i) ''height'' = map_of (dict_product G ! i) ''width'')"
  proof (intro impI allI)
    fix i
    assume a: "link \<and> ''width'' \<in> fst ` set G \<and> ''height'' \<notin> fst ` set G" and i: "i < length runs"
    from bound [OF i] keys have "map fst (?combos ! i) = map fst G"
      by simp
    with a have "''width'' \<in> fst ` set (?combos ! i)"
      by (metis list.set_map)
    then have some: "map_of (?combos ! i) ''width'' \<noteq> None"
      by (simp add: map_of_eq_None_iff)
    from a have "map_of (runs ! i) ''width'' =
      (case map_of (?combos ! i) ''width'' of Some v \<Rightarrow> Some v
       | None \<Rightarrow> map_of (init_kwargs fixed) ''width'')"
      by (intro lookup [OF i]) simp
    with some have w: "map_of (runs ! i) ''width'' = map_of (?combos ! i) ''width''"
      by (auto split: option.splits)
    from a i have "map_of (runs ! i) ''height'' = map_of (runs ! i) ''width''"
      by (intro square) simp_all
    with w show "map_of (runs ! i) ''width'' = map_of (dict_product G ! i) ''width''
               \<and> map_of (runs ! i) ''height'' = map_of (dict_product G ! i) ''width''"
      by simp
  qed
  have c3: "link \<and> ''height'' \<in> fst ` set G \<and> ''width'' \<notin> fst ` set G \<longrightarrow>
            (\<forall>i < length runs.
               map_of (runs ! i) ''height'' = map_of (dict_product G ! i) ''height''
               \<and> map_of (runs ! i) ''width'' = map_of (dict_product G ! i) ''height'')"
  proof (intro impI allI)
    fix i
    assume a: "link \<and> ''height'' \<in> fst ` set G \<and> ''width'' \<notin> fst ` set G" and i: "i < length runs"
    from bound [OF i] keys have "map fst (?combos ! i) = map fst G"
      by simp
    with a have "''height'' \<in> fst ` set (?combos ! i)"
      by (metis list.set_map)
    then have some: "map_of (?combos ! i) ''height'' \<noteq> None"
      by (simp add: map_of_eq_None_iff)
    from a have "map_of (runs ! i) ''height'' =
      (case map_of (?combos ! i) ''height'' of Some v \<Rightarrow> Some v
       | None \<Rightarrow> map_of (init_kwargs fixed) ''height'')"
      by (intro lookup [OF i]) simp
    with some have h: "map_of (runs ! i) ''height'' = map_of (?combos ! i) ''height''"
      by (auto split: option.splits)
    from a i have "map_of (runs ! i) ''height'' = map_of (runs ! i) ''width''"
      by (intro square) simp_all
    with h show "map_of (runs ! i) ''height'' = map_of (dict_product G ! i) ''height''
               \<and> map_of (runs ! i) ''width'' = map_of (dict_product G ! i) ''height''"
      by simp
  qed
  have c4: "\<not> link \<or> k \<notin> {''height'', ''width''} \<longrightarrow>
            (\<forall>i < length runs.
               map_of (runs ! i) k =
                 (case map_of (dict_product G ! i) k of
                    Some v \<Rightarrow> Some v
                  | None \<Rightarrow> map_of (init_kwargs fixed) k))"
    using lookup by blast
  from c1 c2 c3 c4 show ?thesis
    by (intro conjI)
qed

theorem link_height_width_mirrors_witness:
  "distinct (map fst [(''width'', [PInt 5, PInt 10, PInt 15])])
   \<and> map (\<lambda>cfg. (map_of cfg ''width'', map_of cfg ''height'', map_of cfg ''pieces''))
        (snd (pyrat_multiruns example_world [(''height'', PInt 3), (''pieces'', PInt 1)]
                [(''width'', [PInt 5, PInt 10, PInt 15])] True)) =
      [(Some (PInt 5), Some (PInt 5), Some (PInt 1)),
       (Some (PInt 10), Some (PInt 10), Some (PInt 1)),
       (Some (PInt 15), Some (PInt 15), Some (PInt 1))]
   \<and> map (\<lambda>cfg. (map_of cfg ''width'', map_of cfg ''height''))
        (snd (pyrat_multiruns example_world [(''height'', PInt 3), (''pieces'', PInt 1)]
                [(''width'', [PInt 5, PInt 10, PInt 15])] False)) =
      [(Some (PInt 5), Some (PInt 3)), (Some (PInt 10), Some (PInt 3)),
       (Some (PInt 15), Some (PInt 3))]"
proof -
  have d: "distinct (map fst [(''width'', [PInt 5, PInt 10, PInt 15])])"
    by simp
  obtain r runs where linked:
    "pyrat_multiruns example_world [(''height'', PInt 3), (''pieces'', PInt 1)]
       [(''width'', [PInt 5, PInt 10, PInt 15])] True = (r, runs)"
    by (cases "pyrat_multiruns example_world [(''height'', PInt 3), (''pieces'', PInt 1)]
       [(''width'', [PInt 5, PInt 10, PInt 15])] True")
  obtain r' runs' where plain:
    "pyrat_multiruns example_world [(''height'', PInt 3), (''pieces'', PInt 1)]
       [(''width'', [PInt 5, PInt 10, PInt 15])] False = (r', runs')"
    by (cases "pyrat_multiruns example_world [(''height'', PInt 3), (''pieces'', PInt 1)]
       [(''width'', [PInt 5, PInt 10, PInt 15])] False")
  note link_height_width_mirrors [OF d linked, of "''pieces''"]
    link_height_width_mirrors [OF d plain, of "''height''"]
  moreover have "map (\<lambda>cfg. (map_of cfg ''width'', map_of cfg ''height'', map_of cfg ''pieces''))
        (snd (pyrat_multiruns example_world [(''height'', PInt 3), (''pieces'', PInt 1)]
                [(''width'', [PInt 5, PInt 10, PInt 15])] True)) =
      [(Some (PInt 5), Some (PInt 5), Some (PInt 1)),
       (Some (PInt 10), Some (PInt 10), Some (PInt 1)),
       (Some (PInt 15), Some (PInt 15), Some (PInt 1))]"
    by code_simp
  moreover have "map (\<lambda>cfg. (map_of cfg ''width'', map_of cfg ''height''))
        (snd (pyrat_multiruns example_world [(''height'', PInt 3), (''pieces'', PInt 1)]
                [(''width'', [PInt 5, PInt 10, PInt 15])] False)) =
      [(Some (PInt 5), Some (PInt 3)), (Some (PInt 10), Some (PInt 3)),
       (Some (PInt 15), Some (PInt 3))]"
    by code_simp
  ultimately show ?thesis
    using d by blast
qed

section \<open>Facts about the results dictionary\<close>

lemma py_eq_refl: "py_eq x x"
  by (cases x) simp_all

lemma py_eq_sym: "py_eq x y \<Longrightarrow> py_eq y x"
  by (cases x; cases y) simp_all

lemma py_eq_trans: "py_eq x y \<Longrightarrow> py_eq y z \<Longrightarrow> py_eq x z"
  by (cases x; cases y; cases z) (simp_all split: if_splits)

lemma tuple_eq_refl: "tuple_eq xs xs"
  unfolding tuple_eq_def by (rule list_all2_refl) (rule py_eq_refl)

lemma tuple_eq_sym: "tuple_eq xs ys \<Longrightarrow> tuple_eq ys xs"
  unfolding tuple_eq_def list_all2_conv_all_nth by (simp add: py_eq_sym)

lemma tuple_eq_trans: "tuple_eq xs ys \<Longrightarrow> tuple_eq ys zs \<Longrightarrow> tuple_eq xs zs"
  unfolding tuple_eq_def by (rule list_all2_trans [of py_eq py_eq]) (rule py_eq_trans)

text \<open>Assignments to a dictionary whose keys are compared by an equivalence.\<close>

lemma keys_dict_setitem:
  "map fst (dict_setitem eq d k v) =
     (if \<exists>k' \<in> set (map fst d). eq k' k then map fst d else map fst d @ [k])"
proof (induction d)
  case Nil
  show ?case by simp
next
  case (Cons e d)
  obtain k0 v0 where e: "e = (k0, v0)" by (cases e)
  show ?case
  proof (cases "eq k0 k")
    case True
    then show ?thesis by (simp add: e)
  next
    case False
    then have "(\<exists>k' \<in> set (map fst (e # d)). eq k' k) \<longleftrightarrow> (\<exists>k' \<in> set (map fst d). eq k' k)"
      by (simp add: e)
    with False Cons.IH show ?thesis
      by (simp add: e del: set_map)
  qed
qed

lemma length_dict_setitem: "length (dict_setitem eq d k v) \<le> Suc (length d)"
  by (induction d) auto

lemma sorted_wrt_dict_setitem:
  assumes "sorted_wrt (\<lambda>x y. \<not> eq x y) (map fst d)"
  shows "sorted_wrt (\<lambda>x y. \<not> eq x y) (map fst (dict_setitem eq d k v))"
  using assms unfolding keys_dict_setitem by (auto simp: sorted_wrt_append)

lemma getitem_dict_setitem:
  assumes sym: "\<And>x y. eq x y \<Longrightarrow> eq y x" and trans: "\<And>x y z. eq x y \<Longrightarrow> eq y z \<Longrightarrow> eq x z"
    and refl: "\<And>x. eq x x"
  shows "dict_getitem eq (dict_setitem eq d k v) k' =
           (if eq k k' then Some v else dict_getitem eq d k')"
proof (induction d)
  case Nil
  then show ?case by (simp add: dict_getitem_def)
next
  case (Cons e d)
  obtain k0 v0 where e: "e = (k0, v0)" by (cases e)
  show ?case
  proof (cases "eq k0 k")
    case True
    then have "eq k0 k' \<longleftrightarrow> eq k k'"
      using sym trans by blast
    with True show ?thesis
      by (simp add: e dict_getitem_def)
  next
    case False
    then have "\<not> (eq k0 k' \<and> eq k k')"
      using sym trans by blast
    with False Cons.IH show ?thesis
      by (auto simp: e dict_getitem_def)
  qed
qed


lemma fold_setitem_snoc:
  "fold (\<lambda>(k, v) acc. dict_setitem eq acc k v) (es @ [e]) d =
     dict_setitem eq (fold (\<lambda>(k, v) acc. dict_setitem eq acc k v) es d) (fst e) (snd e)"
  by (cases e) simp

lemma getitem_fold_setitem:
  assumes sym: "\<And>x y. eq x y \<Longrightarrow> eq y x" and trans: "\<And>x y z. eq x y \<Longrightarrow> eq y z \<Longrightarrow> eq x z"
    and refl: "\<And>x. eq x x"
  shows "j < length es \<Longrightarrow> eq (fst (es ! j)) k' \<Longrightarrow>
     \<forall>j'. j < j' \<and> j' < length es \<longrightarrow> \<not> eq (fst (es ! j')) k' \<Longrightarrow>
     dict_getitem eq (fold (\<lambda>(k, v) acc. dict_setitem eq acc k v) es d) k' = Some (snd (es ! j))"
proof (induction es rule: rev_induct)
  case Nil
  then show ?case by simp
next
  case (snoc e es)
  note get = getitem_dict_setitem [of eq, OF sym trans refl]
  show ?case
  proof (cases "j = length es")
    case True
    with snoc.prems(2) show ?thesis
      by (simp add: fold_setitem_snoc get del: fold_append)
  next
    case False
    with snoc.prems(1) have j: "j < length es" by simp
    from snoc.prems(3) j have last: "\<not> eq (fst e) k'"
      by (auto dest: spec [of _ "length es"])
    from snoc.prems(2) j have here: "eq (fst (es ! j)) k'"
      by (simp add: nth_append)
    have later: "\<forall>j'. j < j' \<and> j' < length es \<longrightarrow> \<not> eq (fst (es ! j')) k'"
    proof (intro allI impI)
      fix j' assume a: "j < j' \<and> j' < length es"
      with snoc.prems(3) have "\<not> eq (fst ((es @ [e]) ! j')) k'" by simp
      with a show "\<not> eq (fst (es ! j')) k'" by (simp add: nth_append)
    qed
    from snoc.IH [OF j here later] last j show ?thesis
      by (simp add: fold_setitem_snoc get nth_append del: fold_append)
  qed
qed

lemma sorted_wrt_fold_setitem:
  "sorted_wrt (\<lambda>x y. \<not> eq x y) (map fst d) \<Longrightarrow>
     sorted_wrt (\<lambda>x y. \<not> eq x y) (map fst (fold (\<lambda>(k, v) acc. dict_setitem eq acc k v) es d))"
  by (induction es arbitrary: d) (auto simp: sorted_wrt_dict_setitem)

lemma length_fold_setitem:
  "length (fold (\<lambda>(k, v) acc. dict_setitem eq acc k v) es d) \<le> length d + length es"
proof (induction es arbitrary: d)
  case Nil
  show ?case by simp
next
  case (Cons e es)
  obtain k v where e: "e = (k, v)" by (cases e)
  have "length (fold (\<lambda>(k, v) acc. dict_setitem eq acc k v) es (dict_setitem eq d k v))
          \<le> length (dict_setitem eq d k v) + length es"
    by (rule Cons.IH)
  also have "\<dots> \<le> Suc (length d) + length es"
    using length_dict_setitem [of eq d k v] by simp
  finally show ?case
    by (simp add: e)
qed

lemma keys_fold_setitem:
  "set (map fst (fold (\<lambda>(k, v) acc. dict_setitem eq acc k v) es d))
     \<subseteq> set (map fst d) \<union> set (map fst es)"
proof (induction es arbitrary: d)
  case Nil
  show ?case by simp
next
  case (Cons e es)
  obtain k v where e: "e = (k, v)" by (cases e)
  have "set (map fst (dict_setitem eq d k v)) \<subseteq> set (map fst d) \<union> {k}"
    unfolding keys_dict_setitem by auto
  with Cons.IH [of "dict_setitem eq d k v"] show ?case
    by (auto simp: e)
qed


section \<open>Facts about the loop of the sweep\<close>

lemma render_pvalue_Inr: "render_pvalue p = Inr x \<longleftrightarrow> label_entry p x"
proof (cases p)
  case (Pair pname pvalue)
  then show ?thesis
    by (cases pvalue) (auto simp: render_pvalue_def label_entry_def)
qed

lemma render_pvalue_Inl:
  "render_pvalue p = Inl e \<longleftrightarrow>
     fst p \<in> {''rat'', ''python''} \<and> \<not> has_stem (snd p) \<and> e = AttributeError ''stem''"
proof (cases p)
  case (Pair pname pvalue)
  then show ?thesis
    by (cases pvalue) (auto simp: render_pvalue_def)
qed

lemma render_pvalues_Inr: "render_pvalues params = Inr xs \<longleftrightarrow> list_all2 label_entry params xs"
proof (induction params arbitrary: xs)
  case Nil
  show ?case by auto
next
  case (Cons p params)
  show ?case
  proof (cases "render_pvalue p")
    case (Inl e)
    then have "\<not> label_entry p x" for x
      using render_pvalue_Inr [of p x] by simp
    with Inl show ?thesis
      by (auto simp: list_all2_Cons1)
  next
    case (Inr x)
    then have x: "label_entry p y \<longleftrightarrow> y = x" for y
      using render_pvalue_Inr [of p y] by auto
    show ?thesis
    proof (cases "render_pvalues params")
      case (Inl e)
      then have "\<not> list_all2 label_entry params ys" for ys
        using Cons.IH [of ys] by simp
      with Inl Inr show ?thesis
        by (auto simp: list_all2_Cons1)
    next
      case rest: (Inr ys)
      then have "list_all2 label_entry params zs \<longleftrightarrow> zs = ys" for zs
        using Cons.IH [of zs] by auto
      with rest Inr x show ?thesis
        by (auto simp: list_all2_Cons1)
    qed
  qed
qed

lemma render_pvalues_Inl:
  "render_pvalues params = Inl e \<longleftrightarrow> \<not> stems_ok params \<and> e = AttributeError ''stem''"
proof (induction params)
  case Nil
  show ?case by (simp add: stems_ok_def)
next
  case (Cons p params)
  show ?case
  proof (cases "render_pvalue p")
    case (Inl e')
    with render_pvalue_Inl [of p e'] show ?thesis
      by (auto simp: stems_ok_def)
  next
    case (Inr x)
    then have "\<not> (fst p \<in> {''rat'', ''python''} \<and> \<not> has_stem (snd p))"
      using render_pvalue_Inl [of p "AttributeError ''stem''"] by auto
    then have "stems_ok (p # params) \<longleftrightarrow> stems_ok params"
      by (auto simp: stems_ok_def)
    with Inr Cons.IH show ?thesis
      by (auto split: sum.splits)
  qed
qed

lemma stems_ok_iff: "stems_ok params \<longleftrightarrow> (\<exists>xs. render_pvalues params = Inr xs)"
proof (cases "render_pvalues params")
  case (Inl e)
  with render_pvalues_Inl [of params e] show ?thesis by simp
next
  case (Inr xs)
  have "stems_ok params"
  proof (rule ccontr)
    assume "\<not> stems_ok params"
    then have "render_pvalues params = Inl (AttributeError ''stem'')"
      by (simp add: render_pvalues_Inl)
    with Inr show False by simp
  qed
  with Inr show ?thesis by simp
qed

lemma sweep_loop_success:
  "sweep_loop w link combos kw res runs = (Inr res', runs') \<Longrightarrow>
     runs' = runs @ configs link kw combos \<and>
     (\<exists>es. length es = length combos
        \<and> res' = fold (\<lambda>(k, v) acc. dict_setitem tuple_eq acc k v) es res
        \<and> (\<forall>i < length combos.
              render_pvalues (combos ! i) = Inr (fst (es ! i))
              \<and> run_row w (length runs + i) (configs link kw combos ! i) = Some (snd (es ! i))))"
proof (induction combos arbitrary: kw res runs)
  case Nil
  then show ?case by simp
next
  case (Cons params rest)
  let ?kw = "overlay link kw params"
  from Cons.prems obtain csv_path stats where ran: "run w (length runs) ?kw = Inr (csv_path, stats)"
    by (cases "run w (length runs) ?kw") (auto simp: Let_def)
  from Cons.prems ran obtain pvalues where rendered: "render_pvalues params = Inr pvalues"
    by (cases "render_pvalues params") (auto simp: Let_def)
  let ?e = "(pvalues, mean w stats)"
  from Cons.prems ran rendered
  have "sweep_loop w link rest ?kw (dict_setitem tuple_eq res pvalues (mean w stats))
          (runs @ [?kw]) = (Inr res', runs')"
    by (simp add: Let_def)
  from Cons.IH [OF this] obtain es where
    runs': "runs' = (runs @ [?kw]) @ configs link ?kw rest"
    and len: "length es = length rest"
    and res': "res' = fold (\<lambda>(k, v) acc. dict_setitem tuple_eq acc k v) es
                 (dict_setitem tuple_eq res pvalues (mean w stats))"
    and each: "\<forall>i < length rest.
              render_pvalues (rest ! i) = Inr (fst (es ! i))
              \<and> run_row w (length (runs @ [?kw]) + i) (configs link ?kw rest ! i) = Some (snd (es ! i))"
    by blast
  have first: "run_row w (length runs) ?kw = Some (mean w stats)"
    by (simp add: run_row_def ran)
  have "\<forall>i < length (params # rest).
              render_pvalues ((params # rest) ! i) = Inr (fst ((?e # es) ! i))
              \<and> run_row w (length runs + i) (configs link kw (params # rest) ! i)
                  = Some (snd ((?e # es) ! i))"
  proof (intro allI impI)
    fix i assume i: "i < length (params # rest)"
    show "render_pvalues ((params # rest) ! i) = Inr (fst ((?e # es) ! i))
              \<and> run_row w (length runs + i) (configs link kw (params # rest) ! i)
                  = Some (snd ((?e # es) ! i))"
    proof (cases i)
      case 0
      with rendered first show ?thesis by simp
    next
      case (Suc j)
      with i have "j < length rest" by simp
      with each Suc show ?thesis by simp
    qed
  qed
  moreover have "length (?e # es) = length (params # rest)"
    by (simp add: len)
  moreover have "res' = fold (\<lambda>(k, v) acc. dict_setitem tuple_eq acc k v) (?e # es) res"
    by (simp add: res')
  moreover have "runs' = runs @ configs link kw (params # rest)"
    by (simp add: runs')
  ultimately show ?case
    by blast
qed

lemma sweep_loop_stem_failure:
  "i < length combos \<Longrightarrow> \<not> stems_ok (combos ! i) \<Longrightarrow> \<forall>j < i. stems_ok (combos ! j) \<Longrightarrow>
   \<forall>j \<le> i. run_row w (length runs + j) (configs link kw combos ! j) \<noteq> None \<Longrightarrow>
   sweep_loop w link combos kw res runs =
     (Inl (AttributeError ''stem''), runs @ take (Suc i) (configs link kw combos))"
proof (induction combos arbitrary: i kw res runs)
  case Nil
  then show ?case by simp
next
  case (Cons params rest)
  let ?kw = "overlay link kw params"
  from Cons.prems(4) have "run_row w (length runs) ?kw \<noteq> None"
    by (auto dest: spec [of _ 0])
  then obtain csv_path stats where ran: "run w (length runs) ?kw = Inr (csv_path, stats)"
    by (cases "run w (length runs) ?kw") (auto simp: run_row_def)
  show ?case
  proof (cases i)
    case 0
    with Cons.prems(2) have "render_pvalues params = Inl (AttributeError ''stem'')"
      by (simp add: render_pvalues_Inl)
    with ran 0 show ?thesis
      by (simp add: Let_def)
  next
    case (Suc i')
    with Cons.prems(3) have "stems_ok params"
      by (auto dest: spec [of _ 0])
    then obtain pvalues where rendered: "render_pvalues params = Inr pvalues"
      unfolding stems_ok_iff ..
    from Cons.prems(1) Suc have 1: "i' < length rest" by simp
    from Cons.prems(2) Suc have 2: "\<not> stems_ok (rest ! i')" by simp
    have 3: "\<forall>j < i'. stems_ok (rest ! j)"
    proof (intro allI impI)
      fix j assume "j < i'"
      with Suc have "Suc j < i" by simp
      with Cons.prems(3) have "stems_ok ((params # rest) ! Suc j)" by blast
      then show "stems_ok (rest ! j)" by simp
    qed
    have 4: "\<forall>j \<le> i'. run_row w (length (runs @ [?kw]) + j) (configs link ?kw rest ! j) \<noteq> None"
    proof (intro allI impI)
      fix j assume "j \<le> i'"
      with Suc have "Suc j \<le> i" by simp
      with Cons.prems(4)
      have "run_row w (length runs + Suc j) (configs link kw (params # rest) ! Suc j) \<noteq> None"
        by blast
      then show "run_row w (length (runs @ [?kw]) + j) (configs link ?kw rest ! j) \<noteq> None"
        by simp
    qed
    from Cons.IH [OF 1 2 3 4, of "dict_setitem tuple_eq res pvalues (mean w stats)"]
      ran rendered Suc
    show ?thesis
      by (simp add: Let_def)
  qed
qed

lemma pyrat_multiruns_success:
  assumes "pyrat_multiruns w fixed G link = (Inr T, runs)"
  shows "index_names T = map fst G
    \<and> runs = configs link (init_kwargs fixed) (dict_product G)
    \<and> (\<exists>es. length es = length (dict_product G)
        \<and> rows T = fold (\<lambda>(k, v) acc. dict_setitem tuple_eq acc k v) es []
        \<and> (\<forall>i < length (dict_product G).
              render_pvalues (dict_product G ! i) = Inr (fst (es ! i))
              \<and> run_row w i (runs ! i) = Some (snd (es ! i))))"
proof -
  obtain r' runs' where loop:
    "sweep_loop w link (dict_product G) (init_kwargs fixed) [] [] = (r', runs')"
    by (cases "sweep_loop w link (dict_product G) (init_kwargs fixed) [] []")
  with assms obtain res where r': "r' = Inr res" and T: "T = \<lparr>index_names = map fst G, rows = res\<rparr>"
    and runs: "runs = runs'"
    by (cases r') (auto simp: pyrat_multiruns_def)
  from sweep_loop_success [OF loop [unfolded r']] show ?thesis
    by (simp add: T runs)
qed

lemma example_same_stem:
  "pyrat_multiruns example_world []
     [(''rat'', [PPath [] [''a'', ''x.py''], PPath [] [''b'', ''x.py'']])] False =
   (Inr \<lparr>index_names = [''rat''], rows = [([PStr ''x''], 1)]\<rparr>,
    [[(''synchronous'', PBool True), (''nodrawing'', PBool True),
      (''rat'', PPath [] [''a'', ''x.py''])],
     [(''synchronous'', PBool True), (''nodrawing'', PBool True),
      (''rat'', PPath [] [''b'', ''x.py''])]])"
  by code_simp


section \<open>The table of the sweep: claims\<close>




lemma getitem_results:
  assumes "j < length es" and "tuple_eq (fst (es ! j)) k'"
    and "\<forall>j'. j < j' \<and> j' < length es \<longrightarrow> \<not> tuple_eq (fst (es ! j')) k'"
  shows "dict_getitem tuple_eq (fold (\<lambda>(k, v) acc. dict_setitem tuple_eq acc k v) es d) k' =
           Some (snd (es ! j))"
proof (rule getitem_fold_setitem [where eq = tuple_eq])
  show "tuple_eq x y \<Longrightarrow> tuple_eq y x" for x y
    by (rule tuple_eq_sym)
  show "tuple_eq x y \<Longrightarrow> tuple_eq y z \<Longrightarrow> tuple_eq x z" for x y z
    by (rule tuple_eq_trans)
  show "tuple_eq x x" for x
    by (rule tuple_eq_refl)
  show "j < length es" by fact
  show "tuple_eq (fst (es ! j)) k'" by fact
  show "\<forall>j'. j < j' \<and> j' < length es \<longrightarrow> \<not> tuple_eq (fst (es ! j')) k'" by fact
qed

text \<open>
  Claim C9. The rows are kept in a dictionary keyed by the rendered tuple. When a sweep
  completes, the labels of the table are pairwise different and each is the rendered
  tuple of some combination, so the table has at most as many rows as there are
  combinations; the row found under the rendered tuple of a combination holds the
  statistics of the last combination rendered to an equal tuple: a later combination
  overwrites the row of an earlier one. With the two agent scripts \<^verbatim>\<open>a/x.py\<close> and \<^verbatim>\<open>b/x.py\<close>
  the table has the single row \<^verbatim>\<open>x\<close>, which holds the statistics of the second run.
\<close>

theorem results_keyed_by_rendered_tuple:
  assumes "pyrat_multiruns w fixed G link = (Inr T, runs)"
  shows "sorted_wrt (\<lambda>x y. \<not> tuple_eq x y) (map fst (rows T))
    \<and> length (rows T) \<le> length (dict_product G)
    \<and> (\<forall>k \<in> set (map fst (rows T)). \<exists>c \<in> set (dict_product G). render_pvalues c = Inr k)
    \<and> (\<forall>i j. i < length (dict_product G) \<and> j < length (dict_product G)
          \<and> same_label (dict_product G ! i) (dict_product G ! j)
          \<and> (\<forall>j'. j < j' \<and> j' < length (dict_product G) \<longrightarrow>
                \<not> same_label (dict_product G ! i) (dict_product G ! j'))
          \<longrightarrow> (\<exists>x. render_pvalues (dict_product G ! i) = Inr x
                \<and> dict_getitem tuple_eq (rows T) x = run_row w j (runs ! j)
                \<and> run_row w j (runs ! j) \<noteq> None))
    \<and> pyrat_multiruns example_world []
         [(''rat'', [PPath [] [''a'', ''x.py''], PPath [] [''b'', ''x.py'']])] False =
       (Inr \<lparr>index_names = [''rat''], rows = [([PStr ''x''], 1)]\<rparr>,
        [[(''synchronous'', PBool True), (''nodrawing'', PBool True),
          (''rat'', PPath [] [''a'', ''x.py''])],
         [(''synchronous'', PBool True), (''nodrawing'', PBool True),
          (''rat'', PPath [] [''b'', ''x.py''])]])"
proof -
  let ?combos = "dict_product G"
  let ?set = "\<lambda>(k, v) acc. dict_setitem tuple_eq acc k v"
  from pyrat_multiruns_success [OF assms] obtain es where
    len: "length es = length ?combos"
    and rows: "rows T = fold ?set es []"
    and each: "\<forall>i < length ?combos.
              render_pvalues (?combos ! i) = Inr (fst (es ! i))
              \<and> run_row w i (runs ! i) = Some (snd (es ! i))"
    by blast
  have c1: "sorted_wrt (\<lambda>x y. \<not> tuple_eq x y) (map fst (rows T))"
    unfolding rows by (rule sorted_wrt_fold_setitem) simp
  have c2: "length (rows T) \<le> length ?combos"
    using length_fold_setitem [of tuple_eq es "[]"] by (simp add: rows len)
  have c3: "\<forall>k \<in> set (map fst (rows T)). \<exists>c \<in> set ?combos. render_pvalues c = Inr k"
  proof
    fix k assume "k \<in> set (map fst (rows T))"
    with keys_fold_setitem [of tuple_eq es "[]"] have "k \<in> set (map fst es)"
      by (auto simp: rows)
    then obtain i where i: "i < length es" and k: "k = fst (es ! i)"
      by (auto simp: in_set_conv_nth)
    with each len have "render_pvalues (?combos ! i) = Inr k" by simp
    moreover from i len have "?combos ! i \<in> set ?combos" by simp
    ultimately show "\<exists>c \<in> set ?combos. render_pvalues c = Inr k" ..
  qed
  have same: "same_label (?combos ! i) (?combos ! j) \<longleftrightarrow> tuple_eq (fst (es ! i)) (fst (es ! j))"
    if "i < length ?combos" and "j < length ?combos" for i j
    using each that by (simp add: same_label_def)
  have c4: "\<forall>i j. i < length ?combos \<and> j < length ?combos
          \<and> same_label (?combos ! i) (?combos ! j)
          \<and> (\<forall>j'. j < j' \<and> j' < length ?combos \<longrightarrow>
                \<not> same_label (?combos ! i) (?combos ! j'))
          \<longrightarrow> (\<exists>x. render_pvalues (?combos ! i) = Inr x
                \<and> dict_getitem tuple_eq (rows T) x = run_row w j (runs ! j)
                \<and> run_row w j (runs ! j) \<noteq> None)"
  proof (intro allI impI)
    fix i j
    assume a: "i < length ?combos \<and> j < length ?combos
          \<and> same_label (?combos ! i) (?combos ! j)
          \<and> (\<forall>j'. j < j' \<and> j' < length ?combos \<longrightarrow>
                \<not> same_label (?combos ! i) (?combos ! j'))"
    then have i: "i < length ?combos" and j: "j < length ?combos" by simp_all
    from a same [OF i j] have "tuple_eq (fst (es ! i)) (fst (es ! j))" by simp
    then have here: "tuple_eq (fst (es ! j)) (fst (es ! i))"
      by (rule tuple_eq_sym)
    have later: "\<forall>j'. j < j' \<and> j' < length es \<longrightarrow> \<not> tuple_eq (fst (es ! j')) (fst (es ! i))"
    proof (intro allI impI)
      fix j' assume b: "j < j' \<and> j' < length es"
      with len have j': "j' < length ?combos" by simp
      with a b have "\<not> same_label (?combos ! i) (?combos ! j')" by simp
      with same [OF i j'] have "\<not> tuple_eq (fst (es ! i)) (fst (es ! j'))" by simp
      then show "\<not> tuple_eq (fst (es ! j')) (fst (es ! i))"
        using tuple_eq_sym by blast
    qed
    from j len have jl: "j < length es" by simp
    from jl here later
    have "dict_getitem tuple_eq (fold ?set es []) (fst (es ! i)) = Some (snd (es ! j))"
      by (rule getitem_results)
    with each i j rows
    show "\<exists>x. render_pvalues (?combos ! i) = Inr x
                \<and> dict_getitem tuple_eq (rows T) x = run_row w j (runs ! j)
                \<and> run_row w j (runs ! j) \<noteq> None"
      by simp
  qed
  from c1 c2 c3 c4 example_same_stem show ?thesis
    by (intro conjI)
qed

theorem results_keyed_by_rendered_tuple_witness:
  "pyrat_multiruns example_world [] [(''tests'', [PInt 1, PInt 2, PBool True])] False =
     (Inr \<lparr>index_names = [''tests''], rows = [([PInt 1], 2), ([PInt 2], 1)]\<rparr>,
      [[(''synchronous'', PBool True), (''nodrawing'', PBool True), (''tests'', PInt 1)],
       [(''synchronous'', PBool True), (''nodrawing'', PBool True), (''tests'', PInt 2)],
       [(''synchronous'', PBool True), (''nodrawing'', PBool True), (''tests'', PBool True)]])
   \<and> length (dict_product [(''tests'', [PInt 1, PInt 2, PBool True])]) = 3
   \<and> dict_getitem tuple_eq [([PInt 1], 2 :: nat), ([PInt 2], 1)] [PBool True] = Some 2"
proof -
  have e: "pyrat_multiruns example_world [] [(''tests'', [PInt 1, PInt 2, PBool True])] False =
     (Inr \<lparr>index_names = [''tests''], rows = [([PInt 1], 2), ([PInt 2], 1)]\<rparr>,
      [[(''synchronous'', PBool True), (''nodrawing'', PBool True), (''tests'', PInt 1)],
       [(''synchronous'', PBool True), (''nodrawing'', PBool True), (''tests'', PInt 2)],
       [(''synchronous'', PBool True), (''nodrawing'', PBool True), (''tests'', PBool True)]])"
    by code_simp
  have l: "length (dict_product [(''tests'', [PInt 1, PInt 2, PBool True])]) = 3"
    by code_simp
  have g: "dict_getitem tuple_eq [([PInt 1], 2 :: nat), ([PInt 2], 1)] [PBool True] = Some 2"
    by code_simp
  from results_keyed_by_rendered_tuple [OF e] e l g show ?thesis
    by simp
qed

section \<open>Rendering the labels: claims\<close>

text \<open>
  Claim C10. Rendering the tuple of a combination succeeds exactly when every value it
  holds under \<^verbatim>\<open>rat\<close> or \<^verbatim>\<open>python\<close> is a path object: then it cannot fail, and it gives the
  values with those paths replaced by their stem. When such a value is a plain string, or
  any other object without \<^verbatim>\<open>stem\<close>, rendering raises \<^verbatim>\<open>AttributeError\<close>; a sweep with such a
  combination never returns a table; and when the sweep gets as far as the first such
  combination and the run made for it succeeds, the sweep ends with that error after the
  run of this combination has been made.
\<close>

theorem stem_rendering_needs_paths:
  "(stems_ok params \<longrightarrow> (\<exists>xs. render_pvalues params = Inr xs \<and> list_all2 label_entry params xs))
   \<and> (\<not> stems_ok params \<longrightarrow> render_pvalues params = Inl (AttributeError ''stem''))
   \<and> stem_attr (PStr s) = Inl (AttributeError ''stem'')
   \<and> ((\<exists>c \<in> set (dict_product G). \<not> stems_ok c) \<longrightarrow>
        (\<exists>e runs. pyrat_multiruns w fixed G link = (Inl e, runs)))
   \<and> (i < length (dict_product G) \<and> \<not> stems_ok (dict_product G ! i)
        \<and> (\<forall>j < i. stems_ok (dict_product G ! j))
        \<and> (\<forall>j \<le> i. run_row w j (configs link (init_kwargs fixed) (dict_product G) ! j) \<noteq> None)
        \<longrightarrow> pyrat_multiruns w fixed G link =
              (Inl (AttributeError ''stem''),
               take (Suc i) (configs link (init_kwargs fixed) (dict_product G))))"
proof -
  let ?combos = "dict_product G"
  have c1: "stems_ok params \<longrightarrow>
      (\<exists>xs. render_pvalues params = Inr xs \<and> list_all2 label_entry params xs)"
    using render_pvalues_Inr by (auto simp: stems_ok_iff)
  have c2: "\<not> stems_ok params \<longrightarrow> render_pvalues params = Inl (AttributeError ''stem'')"
    by (simp add: render_pvalues_Inl)
  have c3: "stem_attr (PStr s) = Inl (AttributeError ''stem'')"
    by simp
  have c4: "(\<exists>c \<in> set ?combos. \<not> stems_ok c) \<longrightarrow>
        (\<exists>e runs. pyrat_multiruns w fixed G link = (Inl e, runs))"
  proof
    assume "\<exists>c \<in> set ?combos. \<not> stems_ok c"
    then obtain i where i: "i < length ?combos" and bad: "\<not> stems_ok (?combos ! i)"
      by (auto simp: in_set_conv_nth)
    obtain r runs where out: "pyrat_multiruns w fixed G link = (r, runs)"
      by (cases "pyrat_multiruns w fixed G link")
    show "\<exists>e runs. pyrat_multiruns w fixed G link = (Inl e, runs)"
    proof (cases r)
      case (Inl e)
      with out show ?thesis by blast
    next
      case (Inr T)
      from pyrat_multiruns_success [OF out [unfolded Inr]] i
      have "\<exists>x. render_pvalues (?combos ! i) = Inr x"
        by blast
      with bad show ?thesis
        by (simp add: stems_ok_iff)
    qed
  qed
  have c5: "i < length ?combos \<and> \<not> stems_ok (?combos ! i)
        \<and> (\<forall>j < i. stems_ok (?combos ! j))
        \<and> (\<forall>j \<le> i. run_row w j (configs link (init_kwargs fixed) ?combos ! j) \<noteq> None)
        \<longrightarrow> pyrat_multiruns w fixed G link =
              (Inl (AttributeError ''stem''),
               take (Suc i) (configs link (init_kwargs fixed) ?combos))"
  proof
    assume a: "i < length ?combos \<and> \<not> stems_ok (?combos ! i)
        \<and> (\<forall>j < i. stems_ok (?combos ! j))
        \<and> (\<forall>j \<le> i. run_row w j (configs link (init_kwargs fixed) ?combos ! j) \<noteq> None)"
    then have "\<forall>j \<le> i. run_row w (length ([] :: config list) + j)
        (configs link (init_kwargs fixed) ?combos ! j) \<noteq> None"
      by simp
    with a have "sweep_loop w link ?combos (init_kwargs fixed) [] [] =
      (Inl (AttributeError ''stem''), [] @ take (Suc i) (configs link (init_kwargs fixed) ?combos))"
      by (intro sweep_loop_stem_failure) simp_all
    then show "pyrat_multiruns w fixed G link =
              (Inl (AttributeError ''stem''),
               take (Suc i) (configs link (init_kwargs fixed) ?combos))"
      by (simp add: pyrat_multiruns_def)
  qed
  from c1 c2 c3 c4 c5 show ?thesis
    by (intro conjI)
qed

theorem stem_rendering_needs_paths_witness:
  "pyrat_multiruns example_world []
     [(''rat'', [PPath [] [''AIs'', ''bfs.py''], PStr ''AIs/dijkstra.py''])] False =
     (Inl (AttributeError ''stem''),
      [[(''synchronous'', PBool True), (''nodrawing'', PBool True),
        (''rat'', PPath [] [''AIs'', ''bfs.py''])],
       [(''synchronous'', PBool True), (''nodrawing'', PBool True),
        (''rat'', PStr ''AIs/dijkstra.py'')]])
   \<and> stems_ok [(''rat'', PPath [] [''AIs'', ''bfs.py''])]
   \<and> \<not> stems_ok [(''rat'', PStr ''AIs/dijkstra.py'')]"
proof -
  let ?G = "[(''rat'', [PPath [] [''AIs'', ''bfs.py''], PStr ''AIs/dijkstra.py''])]"
  let ?cfg0 = "[(''synchronous'', PBool True), (''nodrawing'', PBool True),
        (''rat'', PPath [] [''AIs'', ''bfs.py''])]"
  let ?cfg1 = "[(''synchronous'', PBool True), (''nodrawing'', PBool True),
        (''rat'', PStr ''AIs/dijkstra.py'')]"
  have dp: "dict_product ?G =
      [[(''rat'', PPath [] [''AIs'', ''bfs.py''])], [(''rat'', PStr ''AIs/dijkstra.py'')]]"
    by code_simp
  have cf: "configs False (init_kwargs []) (dict_product ?G) = [?cfg0, ?cfg1]"
    by code_simp
  have r0: "run_row example_world 0 ?cfg0 = Some 0"
    by code_simp
  have r1: "run_row example_world (Suc 0) ?cfg1 = Some (Suc 0)"
    by code_simp
  have s0: "stems_ok [(''rat'', PPath [] [''AIs'', ''bfs.py''])]"
    by code_simp
  have s1: "\<not> stems_ok [(''rat'', PStr ''AIs/dijkstra.py'')]"
    by code_simp
  have ran: "\<forall>j \<le> Suc 0. run_row example_world j
      (configs False (init_kwargs []) (dict_product ?G) ! j) \<noteq> None"
  proof (intro allI impI)
    fix j :: nat assume "j \<le> Suc 0"
    then consider "j = 0" | "j = Suc 0" by linarith
    then show "run_row example_world j
      (configs False (init_kwargs []) (dict_product ?G) ! j) \<noteq> None"
      by cases (simp_all add: cf r0 r1)
  qed
  have h: "Suc 0 < length (dict_product ?G) \<and> \<not> stems_ok (dict_product ?G ! Suc 0)
        \<and> (\<forall>j < Suc 0. stems_ok (dict_product ?G ! j))
        \<and> (\<forall>j \<le> Suc 0. run_row example_world j
              (configs False (init_kwargs []) (dict_product ?G) ! j) \<noteq> None)"
    using ran by (simp add: dp s0 s1)
  from stem_rendering_needs_paths [where G = ?G and i = "Suc 0" and w = example_world
      and link = False and fixed = "[]"] h
  have "pyrat_multiruns example_world [] ?G False =
      (Inl (AttributeError ''stem''),
       take (Suc (Suc 0)) (configs False (init_kwargs []) (dict_product ?G)))"
    by blast
  with s0 s1 show ?thesis
    by (simp add: cf)
qed

end
